theory Spec2Isabelle
  imports
    Main
    "HOL-Library.Char_ord"
    "HOL-Library.List_Lexorder"
    "HOL-Library.Sublist"
    "HOL-Library.Mapping"
    "HOL-Library.AList_Mapping"
begin

section \<open>bhttp: request items, request assembly and response rendering\<close>

text \<open>
  The development follows the latest generation of the program (the file that defines
  \<^verbatim>\<open>newRequest\<close>, \<^verbatim>\<open>request.do\<close> and \<^verbatim>\<open>isDataSendingSep\<close>). A Go string is a sequence
  of bytes, so it is a \<^typ>\<open>string\<close> here: a list of 8-bit characters.
\<close>

subsection \<open>Strings and runes\<close>

definition backslash :: char where
  "backslash = CHR 0x5C"

definition inRange :: "nat \<Rightarrow> nat \<Rightarrow> char \<Rightarrow> bool" where
  "inRange lo hi c = (lo \<le> of_char c \<and> (of_char c :: nat) \<le> hi)"

text \<open>
  \<^verbatim>\<open>for i, r := range s\<close> decodes one UTF-8 sequence per iteration, as
  \<^verbatim>\<open>utf8.DecodeRuneInString\<close> does. \<open>leadByte\<close> is its table for the first byte of a
  sequence of several bytes: the size of the sequence and the range accepted for its
  second byte.
\<close>

definition leadByte :: "char \<Rightarrow> (nat \<times> nat \<times> nat) option" where
  "leadByte b0 =
     (let x = (of_char b0 :: nat) in
      if 0xC2 \<le> x \<and> x \<le> 0xDF then Some (2, 0x80, 0xBF)
      else if x = 0xE0 then Some (3, 0xA0, 0xBF)
      else if x = 0xED then Some (3, 0x80, 0x9F)
      else if 0xE1 \<le> x \<and> x \<le> 0xEF then Some (3, 0x80, 0xBF)
      else if x = 0xF0 then Some (4, 0x90, 0xBF)
      else if x = 0xF4 then Some (4, 0x80, 0x8F)
      else if 0xF1 \<le> x \<and> x \<le> 0xF3 then Some (4, 0x80, 0xBF)
      else None)"

text \<open>
  \<open>utf8Width s\<close> is the number of bytes of the well-formed sequence that \<open>s\<close> starts
  with, and 0 when \<open>s\<close> starts with no well-formed sequence.
\<close>

definition utf8Width :: "string \<Rightarrow> nat" where
  "utf8Width s =
     (case s of
        [] \<Rightarrow> 0
      | b0 # bs \<Rightarrow>
          if (of_char b0 :: nat) < 0x80 then 1
          else
            (case leadByte b0 of
               None \<Rightarrow> 0
             | Some (sz, lo, hi) \<Rightarrow>
                 if length s < sz then 0
                 else if \<not> inRange lo hi (s ! 1) then 0
                 else if sz \<le> 2 then 2
                 else if \<not> inRange 0x80 0xBF (s ! 2) then 0
                 else if sz \<le> 3 then 3
                 else if \<not> inRange 0x80 0xBF (s ! 3) then 0
                 else 4))"

text \<open>
  A rune is represented by its UTF-8 encoding, which is what \<^verbatim>\<open>string(r)\<close> appends. An
  ill-formed byte decodes to U+FFFD with width 1, and \<^verbatim>\<open>string(r)\<close> is then the three
  bytes of U+FFFD.
\<close>

definition runeError :: string where
  "runeError = [CHR 0xEF, CHR 0xBF, CHR 0xBD]"

definition runeWidth :: "string \<Rightarrow> nat" where
  "runeWidth s = (if utf8Width s = 0 then 1 else utf8Width s)"

definition runeString :: "string \<Rightarrow> string" where
  "runeString s = (if utf8Width s = 0 then runeError else take (utf8Width s) s)"

definition trimSuffix :: "string \<Rightarrow> string \<Rightarrow> string" where
  "trimSuffix s suf = (if suffix suf s then take (length s - length suf) s else s)"

subsection \<open>Errors\<close>

text \<open>Go errors are messages; each message of the program is a constructor.\<close>

datatype error =
    EmptyKey
  | NoSeparator
  | ErrUsage
  | InvalidURL string
  | CannotParse string error
  | SeparatorNotRecognized string
  | FileReadError string
  | JsonModeRequired
  | InvalidJson string
  | StdinConflict
  | CannotMarshal
  | StdinReadError
  | BodyReadError

subsection \<open>The token parser\<close>

record keyVal =
  key :: string
  sep :: string
  val :: string

text \<open>\<^verbatim>\<open>separators\<close> holds all the possible key-pair separators, most ambiguous first.\<close>

definition separators :: "string list" where
  "separators = ['':=@'', '':='', '':'', ''=='', ''=@'', ''='', ''@'']"

text \<open>
  The loop of \<^verbatim>\<open>parseKeyVal\<close>: the third argument is \<^verbatim>\<open>s[i:]\<close>, the first two are
  \<^verbatim>\<open>keyBytes\<close> and \<^verbatim>\<open>wasBackslash\<close>.
\<close>

function parseLoop :: "string \<Rightarrow> bool \<Rightarrow> string \<Rightarrow> error + keyVal" where
  "parseLoop keyBytes wasBackslash [] = Inl NoSeparator"
| "parseLoop keyBytes wasBackslash (c # cs) =
     (if runeString (c # cs) = [backslash] \<and> \<not> wasBackslash then
        parseLoop keyBytes True (drop (runeWidth (c # cs)) (c # cs))
      else if wasBackslash then
        parseLoop (keyBytes @ runeString (c # cs)) False (drop (runeWidth (c # cs)) (c # cs))
      else
        (case List.find (\<lambda>sp. prefix sp (c # cs)) separators of
           Some sp \<Rightarrow>
             if keyBytes = [] then Inl EmptyKey
             else Inr \<lparr>key = keyBytes, sep = sp, val = drop (length sp) (c # cs)\<rparr>
         | None \<Rightarrow>
             parseLoop (keyBytes @ runeString (c # cs)) False
               (drop (runeWidth (c # cs)) (c # cs))))"
  by pat_completeness auto
termination
  by (relation "measure (\<lambda>(k, w, s). length s)") (auto simp: runeWidth_def)

definition parseKeyVal :: "string \<Rightarrow> error + keyVal" where
  "parseKeyVal s = parseLoop [] False s"

subsection \<open>Library functions\<close>

text \<open>
  \<^verbatim>\<open>url.Values\<close> and \<^verbatim>\<open>http.Header\<close> are maps from a string to a list of strings.
  \<^verbatim>\<open>len(m) > 0\<close> is \<open>\<not> Mapping.is_empty m\<close>.
\<close>

type_synonym Values = "(string, string list) mapping"

definition getAll :: "Values \<Rightarrow> string \<Rightarrow> string list" where
  "getAll m k = (case Mapping.lookup m k of None \<Rightarrow> [] | Some vs \<Rightarrow> vs)"

text \<open>\<^verbatim>\<open>url.Values.Add\<close>: \<^verbatim>\<open>v[key] = append(v[key], value)\<close>.\<close>

definition valuesAdd :: "string \<Rightarrow> string \<Rightarrow> Values \<Rightarrow> Values" where
  "valuesAdd k v m = Mapping.update k (getAll m k @ [v]) m"

text \<open>
  \<^verbatim>\<open>url.QueryEscape\<close>: letters, digits and \<^verbatim>\<open>-_.~\<close> stay, a space becomes \<^verbatim>\<open>+\<close>, every
  other byte becomes \<^verbatim>\<open>%XX\<close> in upper-case hexadecimal.
\<close>

definition isAlnum :: "char \<Rightarrow> bool" where
  "isAlnum c = (inRange 0x61 0x7A c \<or> inRange 0x41 0x5A c \<or> inRange 0x30 0x39 c)"

definition shouldEscape :: "char \<Rightarrow> bool" where
  "shouldEscape c = (\<not> (isAlnum c \<or> c \<in> set ''-_.~''))"

definition upperhex :: "nat \<Rightarrow> char" where
  "upperhex n = ''0123456789ABCDEF'' ! (n mod 16)"

definition escapeByte :: "char \<Rightarrow> string" where
  "escapeByte c =
     (if \<not> shouldEscape c then [c]
      else if c = CHR '' '' then ''+''
      else [CHR ''%'', upperhex (of_char c div 16), upperhex (of_char c mod 16)])"

definition queryEscape :: "string \<Rightarrow> string" where
  "queryEscape s = concat (map escapeByte s)"

text \<open>
  \<^verbatim>\<open>url.Values.Encode\<close>: the keys are sorted (\<^verbatim>\<open>sort.Strings\<close>, the byte-wise order of
  strings); for each key its values are written in their stored order as
  \<^verbatim>\<open>key=value\<close>, with \<^verbatim>\<open>&\<close> before every pair but the first.
\<close>

definition encodePair :: "string \<Rightarrow> string \<Rightarrow> string \<Rightarrow> string" where
  "encodePair keyEscaped buf v =
     (if buf \<noteq> [] then buf @ ''&'' else buf) @ keyEscaped @ ''='' @ queryEscape v"

definition valuesEncode :: "Values \<Rightarrow> string" where
  "valuesEncode m =
     foldl (\<lambda>buf k. foldl (encodePair (queryEscape k)) buf (getAll m k)) []
       (Mapping.ordered_keys m)"

text \<open>
  \<^verbatim>\<open>textproto.CanonicalMIMEHeaderKey\<close>: a key with a byte that is not a header token
  byte is returned as it is; otherwise the first letter and every letter after a
  hyphen are made upper case and the other letters lower case.
\<close>

definition validHeaderFieldByte :: "char \<Rightarrow> bool" where
  "validHeaderFieldByte c = (isAlnum c \<or> c \<in> set ''!#$%&*+-.^_`|~'' \<or> c = CHR 0x27)"

fun canonLoop :: "bool \<Rightarrow> string \<Rightarrow> string" where
  "canonLoop upper [] = []"
| "canonLoop upper (c # cs) =
     (let c' = (if upper \<and> inRange 0x61 0x7A c then char_of (of_char c - (32::nat))
                else if \<not> upper \<and> inRange 0x41 0x5A c then char_of (of_char c + (32::nat))
                else c)
      in c' # canonLoop (c' = CHR ''-'') cs)"

definition canonicalMIMEHeaderKey :: "string \<Rightarrow> string" where
  "canonicalMIMEHeaderKey s = (if list_all validHeaderFieldByte s then canonLoop True s else s)"

text \<open>\<^verbatim>\<open>http.Header\<close>'s \<^verbatim>\<open>Add\<close>, \<^verbatim>\<open>Set\<close> and \<^verbatim>\<open>Get\<close>.\<close>

definition headerAdd :: "string \<Rightarrow> string \<Rightarrow> Values \<Rightarrow> Values" where
  "headerAdd k v h = valuesAdd (canonicalMIMEHeaderKey k) v h"

definition headerSet :: "string \<Rightarrow> string \<Rightarrow> Values \<Rightarrow> Values" where
  "headerSet k v h = Mapping.update (canonicalMIMEHeaderKey k) [v] h"

definition headerGet :: "Values \<Rightarrow> string \<Rightarrow> string" where
  "headerGet h k = (case getAll h (canonicalMIMEHeaderKey k) of [] \<Rightarrow> [] | v # _ \<Rightarrow> v)"

text \<open>\<^verbatim>\<open>strings.ToUpper\<close>, on the ASCII letters that \<^verbatim>\<open>isMethod\<close> lets through.\<close>

definition toUpper :: "string \<Rightarrow> string" where
  "toUpper s = map (\<lambda>c. if inRange 0x61 0x7A c then char_of (of_char c - (32::nat)) else c) s"

record url =
  scheme :: string
  host :: string
  path :: string
  rawQuery :: string

text \<open>
  A value of a JSON object under construction: a Go string, or a \<^verbatim>\<open>*json.RawMessage\<close>.
\<close>

datatype jsonValue = StringValue string | RawJson string

text \<open>
  The functions of imported packages whose results the program only passes on are
  parameters: \<^verbatim>\<open>url.Parse\<close>, base64 encoding, \<^verbatim>\<open>json.Unmarshal\<close> into a raw message,
  \<^verbatim>\<open>json.Marshal\<close> of the object, \<^verbatim>\<open>mime.ParseMediaType\<close> (its media type) and
  \<^verbatim>\<open>rjson.Indent\<close> (source, prefix, indent). \<open>None\<close> is the error return.
\<close>

record lib =
  urlParse :: "string \<Rightarrow> url option"
  base64Encode :: "string \<Rightarrow> string"
  jsonUnmarshal :: "string \<Rightarrow> string option"
  jsonMarshal :: "(string, jsonValue) mapping \<Rightarrow> string option"
  parseMediaType :: "string \<Rightarrow> string option"
  rjsonIndent :: "string \<Rightarrow> string \<Rightarrow> string \<Rightarrow> string option"

text \<open>
  The file system: the contents of the readable files, and the paths that have been
  passed to \<^verbatim>\<open>ioutil.ReadFile\<close> so far, oldest first.
\<close>

record world =
  files :: "string \<Rightarrow> string option"
  reads :: "string list"

definition readFile :: "string \<Rightarrow> world \<Rightarrow> string option \<times> world" where
  "readFile p w = (files w p, w\<lparr>reads := reads w @ [p]\<rparr>)"

subsection \<open>Command line\<close>

text \<open>
  The flag values as \<^verbatim>\<open>fset.Parse\<close> leaves them; the positional arguments
  (\<^verbatim>\<open>fset.Args()\<close>) are passed beside them.
\<close>

record flags =
  flagJson :: bool
  flagForm :: bool
  printHeaders :: bool
  noBody :: bool
  flagDebug :: bool
  flagNoBrowser :: bool
  flagRaw :: bool
  flagAgent :: string
  flagAuth :: string
  flagInsecure :: bool
  flagCheckStatus :: bool
  flagCookieFile :: string
  noCookies :: bool
  flagStdin :: bool

text \<open>The field \<^verbatim>\<open>method\<close> of the Go struct is \<open>methodName\<close> here.\<close>

record params =
  json :: bool
  form :: bool
  headers :: bool
  body :: bool
  raw :: bool
  debug :: bool
  noBrowser :: bool
  basicAuth :: string
  cookieFile :: string
  agentFile :: string
  useStdin :: bool
  insecure :: bool
  checkStatus :: bool
  url :: url
  methodName :: string
  keyVals :: "keyVal list"

definition isDataSendingSep :: "string \<Rightarrow> bool" where
  "isDataSendingSep sp =
     (let sp' = trimSuffix sp ''@'' in sp' = '':='' \<or> sp' = ''='' \<or> sp' = [])"

text \<open>
  \<^verbatim>\<open>isMethod\<close> ranges over runes; a rune is a letter of \<^verbatim>\<open>a-z\<close> or \<^verbatim>\<open>A-Z\<close> only when it
  is that single byte, so the test is the same on every byte.
\<close>

definition isMethod :: "string \<Rightarrow> bool" where
  "isMethod s = list_all (\<lambda>r. inRange 0x61 0x7A r \<or> inRange 0x41 0x5A r) s"

text \<open>
  The loop of \<^verbatim>\<open>parseArgs\<close> over the request items: the method so far, the remaining
  arguments and the key-value pairs parsed so far.
\<close>

fun parseItems :: "string \<Rightarrow> string list \<Rightarrow> error + (string \<times> keyVal list)" where
  "parseItems m [] = Inr (m, [])"
| "parseItems m (arg # args) =
     (case parseKeyVal arg of
        Inl err \<Rightarrow> Inl (CannotParse arg err)
      | Inr kv \<Rightarrow>
          (case parseItems (if isDataSendingSep (sep kv) \<and> m = [] then ''POST'' else m) args of
             Inl err \<Rightarrow> Inl err
           | Inr (m', kvs) \<Rightarrow> Inr (m', kv # kvs)))"

definition localhostURL :: "string \<Rightarrow> string" where
  "localhostURL urlStr =
     (let u = (if prefix '':'' urlStr then
                 (if prefix '':/'' urlStr then ''http://localhost'' @ tl urlStr
                  else ''http://localhost'' @ urlStr)
               else urlStr)
      in if \<not> prefix ''http:'' u \<and> \<not> prefix ''https:'' u then ''http://'' @ u else u)"

definition parseArgs :: "lib \<Rightarrow> flags \<Rightarrow> string list \<Rightarrow> error + params" where
  "parseArgs l f args =
     (case args of
        [] \<Rightarrow> Inl ErrUsage
      | a0 # rest0 \<Rightarrow>
          let (m, args1) = (if isMethod a0 then (toUpper a0, rest0) else ([], args)) in
          (case args1 of
             [] \<Rightarrow> Inl ErrUsage
           | urlStr # items \<Rightarrow>
               (case urlParse l (localhostURL urlStr) of
                  None \<Rightarrow> Inl (InvalidURL urlStr)
                | Some u \<Rightarrow>
                    (case parseItems m items of
                       Inl err \<Rightarrow> Inl err
                     | Inr (m', kvs) \<Rightarrow>
                         Inr \<lparr>json = flagJson f, form = flagForm f,
                              headers = printHeaders f, body = (\<not> noBody f),
                              raw = flagRaw f, debug = flagDebug f,
                              noBrowser = flagNoBrowser f, basicAuth = flagAuth f,
                              cookieFile = (if noCookies f then [] else flagCookieFile f),
                              agentFile = flagAgent f, useStdin = flagStdin f,
                              insecure = flagInsecure f, checkStatus = flagCheckStatus f,
                              url = (if host u = [] then u\<lparr>host := ''localhost''\<rparr> else u),
                              methodName = (if m' = [] then ''GET'' else m'),
                              keyVals = kvs\<rparr>))))"

subsection \<open>The request assembler\<close>

text \<open>
  The fields \<^verbatim>\<open>stdin\<close> and \<^verbatim>\<open>body\<close> of the Go struct are never assigned and are left
  out.
\<close>

record request =
  reqUrl :: url
  reqMethod :: string
  header :: Values
  urlValues :: Values
  reqForm :: Values
  jsonObj :: "(string, jsonValue) mapping"

type_synonym sepFunc =
  "lib \<Rightarrow> params \<Rightarrow> string \<Rightarrow> string \<Rightarrow> request \<Rightarrow> world \<Rightarrow> (error + request) \<times> world"

definition httpHeader :: sepFunc where
  "httpHeader l p k v req w = (Inr (req\<lparr>header := headerAdd k v (header req)\<rparr>), w)"

definition urlParam :: sepFunc where
  "urlParam l p k v req w = (Inr (req\<lparr>urlValues := valuesAdd k v (urlValues req)\<rparr>), w)"

definition dataString :: sepFunc where
  "dataString l p k v req w =
     (if json p then (Inr (req\<lparr>jsonObj := Mapping.update k (StringValue v) (jsonObj req)\<rparr>), w)
      else (Inr (req\<lparr>reqForm := valuesAdd k v (reqForm req)\<rparr>), w))"

definition dataStringFile :: sepFunc where
  "dataStringFile l p k v req w =
     (case readFile v w of
        (None, w') \<Rightarrow> (Inl (FileReadError v), w')
      | (Some data, w') \<Rightarrow> dataString l p k data req w')"

definition jsonOther :: sepFunc where
  "jsonOther l p k v req w =
     (if \<not> json p then (Inl JsonModeRequired, w)
      else (case jsonUnmarshal l v of
              None \<Rightarrow> (Inl (InvalidJson k), w)
            | Some m \<Rightarrow> (Inr (req\<lparr>jsonObj := Mapping.update k (RawJson m) (jsonObj req)\<rparr>), w)))"

definition jsonOtherFile :: sepFunc where
  "jsonOtherFile l p k v req w =
     (case readFile v w of
        (None, w') \<Rightarrow> (Inl (FileReadError v), w')
      | (Some data, w') \<Rightarrow> jsonOther l p k data req w')"

definition sepFuncs :: "string \<Rightarrow> sepFunc option" where
  "sepFuncs = map_of
     [('':'', httpHeader),
      (''=='', urlParam),
      (''='', dataString),
      (''=@'', dataStringFile),
      ('':='', jsonOther),
      ('':=@'', jsonOtherFile)]"

definition addKeyVal :: "lib \<Rightarrow> params \<Rightarrow> keyVal \<Rightarrow> request \<Rightarrow> world \<Rightarrow> (error + request) \<times> world" where
  "addKeyVal l p kv req w =
     (case sepFuncs (sep kv) of
        None \<Rightarrow> (Inl (SeparatorNotRecognized (sep kv)), w)
      | Some f \<Rightarrow> f l p (key kv) (val kv) req w)"

text \<open>The loop of \<^verbatim>\<open>newRequest\<close> over \<^verbatim>\<open>p.keyVals\<close>; it returns at the first error.\<close>

fun addKeyVals :: "lib \<Rightarrow> params \<Rightarrow> keyVal list \<Rightarrow> request \<Rightarrow> world \<Rightarrow> (error + request) \<times> world" where
  "addKeyVals l p [] req w = (Inr req, w)"
| "addKeyVals l p (kv # kvs) req w =
     (case addKeyVal l p kv req w of
        (Inl err, w') \<Rightarrow> (Inl err, w')
      | (Inr req', w') \<Rightarrow> addKeyVals l p kvs req' w')"

definition emptyRequest :: "params \<Rightarrow> request" where
  "emptyRequest p =
     \<lparr>reqUrl = url p, reqMethod = methodName p, header = Mapping.empty,
      urlValues = Mapping.empty, reqForm = Mapping.empty, jsonObj = Mapping.empty\<rparr>"

definition setAuth :: "lib \<Rightarrow> params \<Rightarrow> request \<Rightarrow> request" where
  "setAuth l p req =
     (if basicAuth p \<noteq> [] then
        req\<lparr>header := headerSet ''Authorization'' (''Basic '' @ base64Encode l (basicAuth p)) (header req)\<rparr>
      else req)"

definition setJsonType :: "params \<Rightarrow> request \<Rightarrow> request" where
  "setJsonType p req =
     (if json p \<and> headerGet (header req) ''Content-Type'' = [] then
        req\<lparr>header := headerSet ''Content-Type'' ''application/json'' (header req)\<rparr>
      else req)"

definition newRequest ::
    "lib \<Rightarrow> flags \<Rightarrow> string list \<Rightarrow> world \<Rightarrow> (error + request \<times> params) \<times> world" where
  "newRequest l f args w =
     (case parseArgs l f args of
        Inl err \<Rightarrow> (Inl err, w)
      | Inr p \<Rightarrow>
          (case addKeyVals l p (keyVals p) (emptyRequest p) w of
             (Inl err, w') \<Rightarrow> (Inl err, w')
           | (Inr req, w') \<Rightarrow>
               if useStdin p \<and> (\<not> Mapping.is_empty (reqForm req) \<or> \<not> Mapping.is_empty (jsonObj req))
               then (Inl StdinConflict, w')
               else (Inr (setJsonType p (setAuth l p req), p), w')))"

text \<open>
  \<^verbatim>\<open>request.do\<close> up to the call of the HTTP client: the request handed to
  \<^verbatim>\<open>client.Do\<close>. The standard input passed to it is absent (\<^verbatim>\<open>nil\<close>), a stream that
  reads as the given bytes, or a stream whose read fails.
\<close>

datatype stdinStream = NoStdin | Stdin string | StdinFails

record httpRequest =
  URL :: url
  Method :: string
  Header :: Values
  Body :: string

definition mergeQuery :: "request \<Rightarrow> url" where
  "mergeQuery req =
     (if \<not> Mapping.is_empty (urlValues req) then
        (reqUrl req)\<lparr>rawQuery :=
           (if rawQuery (reqUrl req) \<noteq> [] then rawQuery (reqUrl req) @ ''&''
            else rawQuery (reqUrl req)) @ valuesEncode (urlValues req)\<rparr>
      else reqUrl req)"

definition request_do :: "lib \<Rightarrow> request \<Rightarrow> stdinStream \<Rightarrow> error + httpRequest" where
  "request_do l req stdin =
     (let u = mergeQuery req in
      if \<not> Mapping.is_empty (reqForm req) then
        Inr \<lparr>URL = u, Method = reqMethod req,
             Header = headerSet ''Content-Type'' ''application/x-www-form-urlencoded'' (header req),
             Body = valuesEncode (reqForm req)\<rparr>
      else if \<not> Mapping.is_empty (jsonObj req) then
        (case jsonMarshal l (jsonObj req) of
           None \<Rightarrow> Inl CannotMarshal
         | Some data \<Rightarrow> Inr \<lparr>URL = u, Method = reqMethod req, Header = header req, Body = data\<rparr>)
      else if reqMethod req \<noteq> ''GET'' \<and> reqMethod req \<noteq> ''HEAD'' \<and> stdin \<noteq> NoStdin then
        (case stdin of
           Stdin data \<Rightarrow> Inr \<lparr>URL = u, Method = reqMethod req, Header = header req, Body = data\<rparr>
         | _ \<Rightarrow> Inl StdinReadError)
      else Inr \<lparr>URL = u, Method = reqMethod req, Header = header req, Body = []\<rparr>)"

text \<open>
  \<^verbatim>\<open>main0\<close> from the command line to the request handed to the client: standard input
  is passed on only when \<^verbatim>\<open>--stdin\<close> was given.
\<close>

definition buildRequest ::
    "lib \<Rightarrow> flags \<Rightarrow> string list \<Rightarrow> string option \<Rightarrow> world \<Rightarrow> (error + httpRequest) \<times> world" where
  "buildRequest l f args input w =
     (case newRequest l f args w of
        (Inl err, w') \<Rightarrow> (Inl err, w')
      | (Inr (req, p), w') \<Rightarrow>
          (request_do l req
             (if useStdin p then (case input of None \<Rightarrow> StdinFails | Some d \<Rightarrow> Stdin d)
              else NoStdin), w'))"

subsection \<open>The response renderer\<close>




definition newline :: char where
  "newline = CHR 0x0A"

definition tab :: char where
  "tab = CHR 0x09"




section \<open>Notions used in the statements\<close>

subsection \<open>Positions of a token\<close>

text \<open>
  \<open>escapedAfter p\<close>: the position that follows the prefix \<open>p\<close> of a token is escaped,
  that is, \<open>p\<close> ends with an odd number of backslashes (a backslash that is itself
  escaped does not escape).
\<close>

definition escapedAfter :: "string \<Rightarrow> bool" where
  "escapedAfter p = odd (length (takeWhile (\<lambda>c. c = backslash) (rev p)))"

definition firstSep :: "string \<Rightarrow> string option" where
  "firstSep q = List.find (\<lambda>sp. prefix sp q) separators"

definition sepStart :: "char \<Rightarrow> bool" where
  "sepStart c = (c = CHR '':'' \<or> c = CHR ''='' \<or> c = CHR ''@'')"

definition highByte :: "char \<Rightarrow> bool" where
  "highByte b = (0x80 \<le> (of_char b :: nat))"

definition matchesFirst :: "string \<Rightarrow> string \<Rightarrow> string \<Rightarrow> string \<Rightarrow> bool" where
  "matchesFirst ctx t sp v =
     (\<exists>pre. t = pre @ sp @ v \<and> \<not> escapedAfter (ctx @ pre) \<and> firstSep (sp @ v) = Some sp
        \<and> (\<forall>p q. t = p @ q \<and> length p < length pre \<longrightarrow>
              escapedAfter (ctx @ p) \<or> firstSep q = None))"

definition ctxOf :: "bool \<Rightarrow> string" where
  "ctxOf wb = (if wb then [backslash] else [])"

text \<open>
  A character is a well-formed UTF-8 sequence. The key part of a token is written as a
  list of items: a character and whether a backslash precedes it. A character without
  a backslash is not a backslash and does not start a separator.
\<close>

definition wellFormed :: "string \<Rightarrow> bool" where
  "wellFormed ch = (ch \<noteq> [] \<and> utf8Width ch = length ch)"

definition renderItem :: "bool \<times> string \<Rightarrow> string" where
  "renderItem it = (if fst it then backslash # snd it else snd it)"

definition itemOk :: "bool \<times> string \<Rightarrow> bool" where
  "itemOk it =
     (wellFormed (snd it)
      \<and> (\<not> fst it \<longrightarrow> snd it \<noteq> [backslash] \<and> \<not> sepStart (hd (snd it))))"

subsection \<open>Tokens and request states\<close>

text \<open>
  The separators that the specification calls DataString, JsonValue and their file
  variants, and the two file variants alone.
\<close>

definition isBodySep :: "string \<Rightarrow> bool" where
  "isBodySep sp = (sp = ''='' \<or> sp = '':='' \<or> sp = ''=@'' \<or> sp = '':=@'')"

definition isFileSep :: "string \<Rightarrow> bool" where
  "isFileSep sp = (sp = ''=@'' \<or> sp = '':=@'')"

text \<open>
  What one successful token application may do to the two body maps: it leaves the
  form alone in JSON mode and the JSON object alone otherwise, and it empties neither.
\<close>

definition bodyStep :: "params \<Rightarrow> request \<Rightarrow> request \<Rightarrow> bool" where
  "bodyStep p req req' =
     ((json p \<longrightarrow> reqForm req' = reqForm req)
      \<and> (\<not> json p \<longrightarrow> jsonObj req' = jsonObj req)
      \<and> (\<not> Mapping.is_empty (reqForm req) \<longrightarrow> \<not> Mapping.is_empty (reqForm req'))
      \<and> (\<not> Mapping.is_empty (jsonObj req) \<longrightarrow> \<not> Mapping.is_empty (jsonObj req')))"

text \<open>
  The fields of a form body as \<^verbatim>\<open>Encode\<close> lists them: the keys in sorted order, and
  under each key the values of the tokens with that key, in the order of the tokens.
  \<open>joinFields\<close> writes them as \<^verbatim>\<open>key=value\<close> pairs separated by \<^verbatim>\<open>&\<close>.
\<close>

definition sortedFields :: "keyVal list \<Rightarrow> (string \<times> string) list" where
  "sortedFields kvs =
     concat (map (\<lambda>k. map (\<lambda>kv. (k, val kv)) (filter (\<lambda>kv. key kv = k) kvs))
       (sort (remdups (map key kvs))))"

fun joinWith :: "string \<Rightarrow> string list \<Rightarrow> string" where
  "joinWith s [] = []"
| "joinWith s [x] = x"
| "joinWith s (x # y # ys) = x @ s @ joinWith s (y # ys)"

definition joinFields :: "(string \<times> string) list \<Rightarrow> string" where
  "joinFields fs = joinWith ''&'' (map (\<lambda>(k, v). queryEscape k @ ''='' @ queryEscape v) fs)"

subsection \<open>Inputs of the examples\<close>

text \<open>
  The results of the imported packages on the inputs that the examples below use; the
  tables say nothing about other inputs. \<^verbatim>\<open>rjson.Indent\<close> writes the value and no white
  space after it: the body \<^verbatim>\<open>{}\<close> followed by two newlines gives \<^verbatim>\<open>{}\<close>.
\<close>

definition exampleLib :: lib where
  "exampleLib =
     \<lparr>urlParse = (\<lambda>s. if s = ''http://foo.com''
                        then Some \<lparr>scheme = ''http'', host = ''foo.com'', path = [], rawQuery = []\<rparr>
                        else None),
      base64Encode = (\<lambda>s. if s = ''username:password'' then ''dXNlcm5hbWU6cGFzc3dvcmQ='' else []),
      jsonUnmarshal = (\<lambda>s. if s = ''123'' \<or> s = ''true'' then Some s else None),
      jsonMarshal = (\<lambda>m. None),
      parseMediaType = (\<lambda>s. if s = ''application/json'' then Some s else None),
      rjsonIndent = (\<lambda>src pre ind.
                       if src = [CHR ''{'', CHR ''}'', newline, newline] \<and> pre = [] \<and> ind = [tab]
                       then Some [CHR ''{'', CHR ''}''] else None)\<rparr>"

definition noFlags :: flags where
  "noFlags =
     \<lparr>flagJson = False, flagForm = False, printHeaders = False, noBody = False,
      flagDebug = False, flagNoBrowser = False, flagRaw = False, flagAgent = [],
      flagAuth = [], flagInsecure = False, flagCheckStatus = False, flagCookieFile = [],
      noCookies = False, flagStdin = False\<rparr>"

text \<open>A file system with the single file \<^verbatim>\<open>/f\<close>, and nothing read yet.\<close>

definition exampleWorld :: world where
  "exampleWorld = \<lparr>files = (\<lambda>p. if p = ''/f'' then Some ''x'' else None), reads = []\<rparr>"

definition fooURL :: url where
  "fooURL = \<lparr>scheme = ''http'', host = ''foo.com'', path = [], rawQuery = []\<rparr>"

text \<open>The parameters of \<^verbatim>\<open>http foo.com\<close> without flags, and of \<^verbatim>\<open>http --json foo.com\<close>.\<close>

definition formParams :: params where
  "formParams =
     \<lparr>json = False, form = False, headers = False, body = True, raw = False, debug = False,
      noBrowser = False, basicAuth = [], cookieFile = [], agentFile = [], useStdin = False,
      insecure = False, checkStatus = False, url = fooURL, methodName = ''POST'', keyVals = []\<rparr>"

definition jsonParams :: params where
  "jsonParams = formParams\<lparr>json := True\<rparr>"

text \<open>The flags of \<^verbatim>\<open>http --stdin\<close>.\<close>

definition stdinFlags :: flags where
  "stdinFlags = noFlags\<lparr>flagStdin := True\<rparr>"

text \<open>
  A request for \<^verbatim>\<open>/foo?z=zval\<close> with the accumulated query parameters
  \<^verbatim>\<open>x==xval1 x==xval2 y==yval\<close>.
\<close>

definition queryRequest :: request where
  "queryRequest =
     \<lparr>reqUrl = \<lparr>scheme = ''http'', host = ''foo.com'', path = ''/foo'', rawQuery = ''z=zval''\<rparr>,
      reqMethod = ''GET'', header = Mapping.empty,
      urlValues = valuesAdd ''y'' ''yval'' (valuesAdd ''x'' ''xval2'' (valuesAdd ''x'' ''xval1'' Mapping.empty)),
      reqForm = Mapping.empty, jsonObj = Mapping.empty\<rparr>"

subsection \<open>Form fields\<close>

text \<open>
  The form after a list of \<^verbatim>\<open>=\<close> tokens, and the step of \<^verbatim>\<open>Encode\<close> that writes one
  \<^verbatim>\<open>key=value\<close> pair to its buffer.
\<close>

definition addAll :: "Values \<Rightarrow> keyVal list \<Rightarrow> Values" where
  "addAll m kvs = foldl (\<lambda>m kv. valuesAdd (key kv) (val kv) m) m kvs"

definition appendField :: "string \<Rightarrow> string \<Rightarrow> string" where
  "appendField buf s = (if buf \<noteq> [] then buf @ ''&'' else buf) @ s"

subsection \<open>Rendering\<close>



section \<open>The token parser: properties\<close>

subsection \<open>Runes\<close>

lemma leadByte_Some: "leadByte b = Some (sz, lo, hi) \<Longrightarrow> 2 \<le> sz \<and> sz \<le> 4 \<and> 0x80 \<le> lo"
  by (auto simp: leadByte_def Let_def split: if_splits)

lemma utf8Width_lead:
  assumes "\<not> (of_char b0 :: nat) < 0x80" "leadByte b0 = Some (sz, lo, hi)"
  shows "utf8Width (b0 # bs) = 0 \<or> (utf8Width (b0 # bs) = sz \<and> sz \<le> length (b0 # bs)
           \<and> inRange lo hi ((b0 # bs) ! 1)
           \<and> (2 < sz \<longrightarrow> inRange 0x80 0xBF ((b0 # bs) ! 2))
           \<and> (3 < sz \<longrightarrow> inRange 0x80 0xBF ((b0 # bs) ! 3)))"
proof -
  from leadByte_Some[OF assms(2)] have "sz = 2 \<or> sz = 3 \<or> sz = 4" by auto
  then show ?thesis
  proof (elim disjE)
    assume "sz = 2"
    then show ?thesis using assms by (cases bs) (auto simp: utf8Width_def)
  next
    assume "sz = 3"
    then show ?thesis using assms by (auto simp: utf8Width_def)
  next
    assume "sz = 4"
    then show ?thesis using assms by (auto simp: utf8Width_def)
  qed
qed

lemma utf8Width_le: "utf8Width t \<le> length t"
proof (cases t)
  case Nil
  then show ?thesis by (simp add: utf8Width_def)
next
  case (Cons b0 bs)
  show ?thesis
  proof (cases "(of_char b0 :: nat) < 0x80")
    case True
    with Cons show ?thesis by (simp add: utf8Width_def)
  next
    case False
    show ?thesis
    proof (cases "leadByte b0")
      case None
      with False Cons show ?thesis by (simp add: utf8Width_def)
    next
      case (Some a)
      then obtain sz lo hi where "leadByte b0 = Some (sz, lo, hi)" by (cases a) auto
      from utf8Width_lead[OF False this, of bs] Cons show ?thesis by auto
    qed
  qed
qed

lemma utf8Width_high:
  assumes "0 < j" "j < utf8Width t"
  shows "highByte (t ! j)"
proof (cases t)
  case Nil
  with assms show ?thesis by (simp add: utf8Width_def)
next
  case (Cons b0 bs)
  show ?thesis
  proof (cases "(of_char b0 :: nat) < 0x80")
    case True
    with assms Cons show ?thesis by (simp add: utf8Width_def)
  next
    case False
    show ?thesis
    proof (cases "leadByte b0")
      case None
      with False Cons assms show ?thesis by (simp add: utf8Width_def)
    next
      case (Some a)
      then obtain sz lo hi where lb: "leadByte b0 = Some (sz, lo, hi)" by (cases a) auto
      from leadByte_Some[OF lb] have lo: "0x80 \<le> lo" by simp
      from utf8Width_lead[OF False lb, of bs] assms Cons
      have w: "utf8Width t = sz" and r1: "inRange lo hi (t ! 1)"
        and r2: "2 < sz \<Longrightarrow> inRange 0x80 0xBF (t ! 2)"
        and r3: "3 < sz \<Longrightarrow> inRange 0x80 0xBF (t ! 3)"
        by auto
      from leadByte_Some[OF lb] have sz4: "sz \<le> 4" by simp
      show ?thesis
      proof (cases "j = 1")
        case True
        with r1 lo show ?thesis by (simp add: inRange_def highByte_def)
      next
        case False
        with assms w sz4 have "(j = 2 \<and> 2 < sz) \<or> (j = 3 \<and> 3 < sz)" by auto
        with r2 r3 show ?thesis by (auto simp: inRange_def highByte_def)
      qed
    qed
  qed
qed

lemma runeWidth_pos: "0 < runeWidth t"
  by (simp add: runeWidth_def)

lemma runeWidth_le: "t \<noteq> [] \<Longrightarrow> runeWidth t \<le> length t"
  using utf8Width_le[of t] by (cases t) (auto simp: runeWidth_def)

lemma runeWidth_high: "0 < j \<Longrightarrow> j < runeWidth t \<Longrightarrow> highByte (t ! j)"
  using utf8Width_high[of j t] by (auto simp: runeWidth_def split: if_splits)

lemma utf8Width_ascii: "(of_char c :: nat) < 0x80 \<Longrightarrow> utf8Width (c # cs) = 1"
  by (simp add: utf8Width_def)

lemma runeString_backslash: "runeString (c # cs) = [backslash] \<longleftrightarrow> c = backslash"
proof
  assume "runeString (c # cs) = [backslash]"
  then show "c = backslash"
    by (cases "utf8Width (c # cs)") (auto simp: runeString_def runeError_def split: if_splits)
next
  assume "c = backslash"
  then have "utf8Width (c # cs) = 1" by (simp add: utf8Width_ascii backslash_def)
  then show "runeString (c # cs) = [backslash]" using \<open>c = backslash\<close> by (simp add: runeString_def)
qed

lemma escapedAfter_Nil: "escapedAfter [] = False"
  by (simp add: escapedAfter_def)

lemma escapedAfter_snoc: "escapedAfter (p @ [c]) = (c = backslash \<and> \<not> escapedAfter p)"
  by (simp add: escapedAfter_def)

lemma escapedAfter_single: "escapedAfter [c] = (c = backslash)"
  using escapedAfter_snoc[of "[]" c] by (simp add: escapedAfter_Nil)

lemma escapedAfter_cong:
  "escapedAfter x = escapedAfter y \<Longrightarrow> escapedAfter (x @ p) = escapedAfter (y @ p)"
proof (induction p rule: rev_induct)
  case Nil then show ?case by simp
next
  case (snoc c p)
  then show ?case using escapedAfter_snoc[of "x @ p" c] escapedAfter_snoc[of "y @ p" c] by simp
qed

lemma separators_hd: "sp \<in> set separators \<Longrightarrow> sp \<noteq> [] \<and> sepStart (hd sp)"
  by (auto simp: separators_def sepStart_def)

lemma sepStart_single: "sepStart c \<Longrightarrow> [c] \<in> set separators"
  by (auto simp: separators_def sepStart_def)

lemma firstSep_None: "(firstSep q = None) = (q = [] \<or> \<not> sepStart (hd q))"
proof
  assume "firstSep q = None"
  then have no: "\<And>sp. sp \<in> set separators \<Longrightarrow> \<not> prefix sp q"
    by (auto simp: firstSep_def find_None_iff)
  show "q = [] \<or> \<not> sepStart (hd q)"
  proof (cases q)
    case Nil then show ?thesis by simp
  next
    case (Cons c cs)
    have "\<not> sepStart c"
    proof
      assume "sepStart c"
      from no[OF sepStart_single[OF this]] Cons show False by simp
    qed
    with Cons show ?thesis by simp
  qed
next
  assume a: "q = [] \<or> \<not> sepStart (hd q)"
  have "\<not> prefix sp q" if "sp \<in> set separators" for sp
  proof
    assume p: "prefix sp q"
    from separators_hd[OF that] have sp: "sp \<noteq> []" "sepStart (hd sp)" by simp_all
    with p have "q \<noteq> []" "hd q = hd sp" by (auto simp: prefix_def)
    with a sp show False by simp
  qed
  then show "firstSep q = None" by (auto simp: firstSep_def find_None_iff)
qed

lemma firstSep_Some: "firstSep q = Some sp \<Longrightarrow> sp \<in> set separators \<and> prefix sp q"
  by (auto simp: firstSep_def find_Some_iff)

lemma highByte_not_sepStart: "highByte b \<Longrightarrow> \<not> sepStart b"
  by (auto simp: highByte_def sepStart_def)

lemma highByte_not_backslash: "highByte b \<Longrightarrow> b \<noteq> backslash"
  by (auto simp: highByte_def backslash_def)

lemma inside_rune:
  assumes "t = p @ q" "0 < length p" "length p < runeWidth t"
  shows "firstSep q = None"
proof -
  from assms have "t \<noteq> []" by auto
  from runeWidth_le[OF this] assms have "q \<noteq> []" by auto
  then have "hd q = t ! length p" using assms(1) by (simp add: nth_append hd_conv_nth)
  with runeWidth_high[OF assms(2,3)] have "highByte (hd q)" by simp
  then show ?thesis by (simp add: firstSep_None highByte_not_sepStart)
qed

lemma rune_last:
  assumes "t = c # cs"
  shows "take (runeWidth t) t = [c] \<or> (\<exists>x b. take (runeWidth t) t = x @ [b] \<and> highByte b)"
proof (cases "runeWidth t = 1")
  case True
  with assms show ?thesis by simp
next
  case False
  with runeWidth_pos[of t] have w: "1 < runeWidth t" by auto
  from assms have "t \<noteq> []" by simp
  from runeWidth_le[OF this] have le: "runeWidth t \<le> length t" .
  let ?r = "take (runeWidth t) t"
  have ne: "?r \<noteq> []" using w assms by auto
  have "last ?r = t ! (runeWidth t - 1)" using le w ne by (simp add: last_conv_nth)
  moreover have "highByte (t ! (runeWidth t - 1))" using w by (intro runeWidth_high) auto
  ultimately have "highByte (last ?r)" by simp
  moreover have "?r = butlast ?r @ [last ?r]" using ne by simp
  ultimately show ?thesis by blast
qed

lemma rune_not_escaping:
  assumes "t = c # cs"
  shows "\<not> escapedAfter ([backslash] @ take (runeWidth t) t)"
    and "c \<noteq> backslash \<Longrightarrow> \<not> escapedAfter (take (runeWidth t) t)"
proof -
  from rune_last[OF assms] consider "take (runeWidth t) t = [c]"
    | x b where "take (runeWidth t) t = x @ [b]" "highByte b" by blast
  note cs = this
  show "\<not> escapedAfter ([backslash] @ take (runeWidth t) t)"
  proof (cases rule: cs)
    case 1
    then show ?thesis using escapedAfter_snoc[of "[backslash]" c] by (simp add: escapedAfter_single)
  next
    case 2
    then show ?thesis using escapedAfter_snoc[of "[backslash] @ x" b]
      by (simp add: highByte_not_backslash)
  qed
  show "\<not> escapedAfter (take (runeWidth t) t)" if "c \<noteq> backslash"
  proof (cases rule: cs)
    case 1
    then show ?thesis using that by (simp add: escapedAfter_single)
  next
    case 2
    then show ?thesis using escapedAfter_snoc[of x b] by (simp add: highByte_not_backslash)
  qed
qed

lemma skip_step:
  assumes IH: "matchesFirst ctx' rest sp v"
    and esc: "escapedAfter (ctx @ r) = escapedAfter ctx'"
    and inside: "\<And>p q. r @ rest = p @ q \<Longrightarrow> length p < length r \<Longrightarrow>
                   escapedAfter (ctx @ p) \<or> firstSep q = None"
  shows "matchesFirst ctx (r @ rest) sp v"
proof -
  from IH[unfolded matchesFirst_def] obtain pre' where
    P: "rest = pre' @ sp @ v \<and> \<not> escapedAfter (ctx' @ pre') \<and> firstSep (sp @ v) = Some sp
        \<and> (\<forall>p q. rest = p @ q \<and> length p < length pre' \<longrightarrow>
              escapedAfter (ctx' @ p) \<or> firstSep q = None)" ..
  from P have pre': "rest = pre' @ sp @ v" "\<not> escapedAfter (ctx' @ pre')"
    "firstSep (sp @ v) = Some sp" by simp_all
  from P have left0: "\<forall>p q. rest = p @ q \<and> length p < length pre' \<longrightarrow>
              escapedAfter (ctx' @ p) \<or> firstSep q = None" by simp
  have left: "escapedAfter (ctx' @ p) \<or> firstSep q = None"
    if "rest = p @ q" "length p < length pre'" for p q
    using left0[rule_format, of p q] that by simp
  have e: "escapedAfter (ctx @ r @ x) = escapedAfter (ctx' @ x)" for x
    using escapedAfter_cong[OF esc, of x] by simp
  have far: "escapedAfter (ctx @ p) \<or> firstSep q = None"
    if eq: "r @ rest = p @ q" and len: "length p < length (r @ pre')" for p q
  proof (cases "length p < length r")
    case True
    with inside[OF eq] show ?thesis .
  next
    case False
    define p' where "p' = drop (length r) p"
    from eq have "take (length r) (r @ rest) = take (length r) (p @ q)" by simp
    with False have "r = take (length r) p" by simp
    then have p: "p = r @ p'" unfolding p'_def using append_take_drop_id[of "length r" p] by simp
    with eq have rest: "rest = p' @ q" by simp
    from len p have "length p' < length pre'" by simp
    from left[OF rest this] e[of p'] p show ?thesis by simp
  qed
  show ?thesis unfolding matchesFirst_def
  proof (intro exI[of _ "r @ pre'"] conjI allI impI)
    show "r @ rest = (r @ pre') @ sp @ v" using pre'(1) by simp
    show "\<not> escapedAfter (ctx @ r @ pre')" using e[of pre'] pre'(2) by simp
    show "firstSep (sp @ v) = Some sp" by (rule pre'(3))
  next
    fix p q assume "r @ rest = p @ q \<and> length p < length (r @ pre')"
    then show "escapedAfter (ctx @ p) \<or> firstSep q = None" using far[of p q] by simp
  qed
qed

lemma parseLoop_match:
  "parseLoop kb wb t = Inr kv \<Longrightarrow> matchesFirst (ctxOf wb) t (sep kv) (val kv)"
proof (induction kb wb t rule: parseLoop.induct)
  case (1 keyBytes wasBackslash)
  then show ?case by simp
next
  case (2 keyBytes wasBackslash c cs)
  define t where "t = c # cs"
  define r where "r = take (runeWidth t) t"
  define rest where "rest = drop (runeWidth t) t"
  have tne: "t \<noteq> []" by (simp add: t_def)
  have split: "t = r @ rest" by (simp add: r_def rest_def)
  have lenr: "length r = runeWidth t" using runeWidth_le[OF tne] by (simp add: r_def)
  have inside0: "firstSep q = None" if "r @ rest = p @ q" "p \<noteq> []" "length p < length r" for p q
    using inside_rune[of t p q] that split lenr by simp
  have bs: "(runeString t = [backslash]) = (c = backslash)"
    by (simp add: t_def runeString_backslash)
  show ?case
  proof (cases "runeString t = [backslash] \<and> \<not> wasBackslash")
    case True
    then have c: "c = backslash" and nwb: "\<not> wasBackslash" using bs by simp_all
    from True "2.prems" have run: "parseLoop keyBytes True rest = Inr kv"
      by (simp add: t_def rest_def)
    from True have cond: "runeString (c # cs) = [backslash] \<and> \<not> wasBackslash" by (simp add: t_def)
    from "2.IH"(1)[OF cond] run have ih: "matchesFirst [backslash] rest (sep kv) (val kv)"
      by (simp add: ctxOf_def t_def rest_def)
    have w1: "runeWidth t = 1" using c by (simp add: t_def runeWidth_def utf8Width_ascii backslash_def)
    have rb: "r = [backslash]" using w1 c by (simp add: r_def t_def)
    have "matchesFirst [] (r @ rest) (sep kv) (val kv)"
    proof (rule skip_step[OF ih])
      show "escapedAfter ([] @ r) = escapedAfter [backslash]" using rb by simp
    next
      fix p q assume eq: "r @ rest = p @ q" and len: "length p < length r"
      from len rb have p: "p = []" by simp
      with eq rb have "q = backslash # rest" by simp
      then have "firstSep q = None" by (simp add: firstSep_None sepStart_def backslash_def)
      then show "escapedAfter ([] @ p) \<or> firstSep q = None" ..
    qed
    then show ?thesis using nwb split by (simp add: ctxOf_def t_def)
  next
    case nb: False
    then have cond1: "\<not> (runeString (c # cs) = [backslash] \<and> \<not> wasBackslash)" by (simp add: t_def)
    show ?thesis
    proof (cases wasBackslash)
      case True
      from cond1 True "2.prems"
      have run: "parseLoop (keyBytes @ runeString (c # cs)) False rest = Inr kv"
        by (simp add: t_def rest_def)
      from "2.IH"(2)[OF cond1 True] run have ih: "matchesFirst [] rest (sep kv) (val kv)"
        by (simp add: ctxOf_def t_def rest_def)
      have "matchesFirst [backslash] (r @ rest) (sep kv) (val kv)"
      proof (rule skip_step[OF ih])
        show "escapedAfter ([backslash] @ r) = escapedAfter []"
          using rune_not_escaping(1)[of t c cs] by (simp add: escapedAfter_Nil r_def t_def)
      next
        fix p q assume eq: "r @ rest = p @ q" and len: "length p < length r"
        show "escapedAfter ([backslash] @ p) \<or> firstSep q = None"
        proof (cases "p = []")
          case True
          then show ?thesis by (simp add: escapedAfter_single)
        next
          case False
          from inside0[OF eq False len] show ?thesis ..
        qed
      qed
      then show ?thesis using True split by (simp add: ctxOf_def t_def)
    next
      case False
      from nb False have cb: "c \<noteq> backslash" using bs by simp
      show ?thesis
      proof (cases "firstSep t")
        case None
        then have none': "List.find (\<lambda>sp. prefix sp (c # cs)) separators = None"
          by (simp add: firstSep_def t_def)
        with cond1 False "2.prems"
        have run: "parseLoop (keyBytes @ runeString (c # cs)) False rest = Inr kv"
          by (simp add: t_def rest_def)
        from "2.IH"(3)[OF cond1 False none'] run
        have ih: "matchesFirst [] rest (sep kv) (val kv)" by (simp add: ctxOf_def t_def rest_def)
        have "matchesFirst [] (r @ rest) (sep kv) (val kv)"
        proof (rule skip_step[OF ih])
          show "escapedAfter ([] @ r) = escapedAfter []"
            using rune_not_escaping(2)[of t c cs] cb by (simp add: escapedAfter_Nil r_def t_def)
        next
          fix p q assume eq: "r @ rest = p @ q" and len: "length p < length r"
          show "escapedAfter ([] @ p) \<or> firstSep q = None"
          proof (cases "p = []")
            case True
            with eq split have "q = t" by simp
            with None show ?thesis by simp
          next
            case False
            from inside0[OF eq False len] show ?thesis ..
          qed
        qed
        then show ?thesis using False split by (simp add: ctxOf_def t_def)
      next
        case (Some sp)
        then have some': "List.find (\<lambda>sp. prefix sp (c # cs)) separators = Some sp"
          by (simp add: firstSep_def t_def)
        with cond1 False "2.prems" have kv: "keyBytes \<noteq> []"
          "kv = \<lparr>key = keyBytes, sep = sp, val = drop (length sp) t\<rparr>"
          by (auto simp: t_def split: if_splits)
        from firstSep_Some[OF Some] have "prefix sp t" by simp
        then have tt: "sp @ drop (length sp) t = t" by (auto simp: prefix_def)
        have "matchesFirst [] t sp (drop (length sp) t)"
          unfolding matchesFirst_def
        proof (intro exI[of _ "[]"] conjI allI impI)
          show "t = [] @ sp @ drop (length sp) t" using tt by simp
          show "\<not> escapedAfter ([] @ [])" by (simp add: escapedAfter_Nil)
          show "firstSep (sp @ drop (length sp) t) = Some sp" using Some tt by simp
        next
          fix p q :: string
          assume "t = p @ q \<and> length p < length ([]::string)"
          then show "escapedAfter ([] @ p) \<or> firstSep q = None" by simp
        qed
        then show ?thesis using kv False by (simp add: ctxOf_def t_def)
      qed
    qed
  qed
qed

lemma utf8Width_append:
  assumes "wellFormed ch"
  shows "utf8Width (ch @ rest) = length ch"
proof -
  from assms obtain b0 bs where ch: "ch = b0 # bs" by (cases ch) (auto simp: wellFormed_def)
  from assms have w: "utf8Width ch = length ch" by (simp add: wellFormed_def)
  show ?thesis
  proof (cases "(of_char b0 :: nat) < 0x80")
    case True
    with w ch show ?thesis by (simp add: utf8Width_def)
  next
    case False
    show ?thesis
    proof (cases "leadByte b0")
      case None
      with False w ch show ?thesis by (simp add: utf8Width_def)
    next
      case (Some a)
      then obtain sz lo hi where lb: "leadByte b0 = Some (sz, lo, hi)" by (cases a) auto
      from utf8Width_lead[OF False lb, of bs] w ch
      have sz: "sz = length ch" and r1: "inRange lo hi (ch ! 1)"
        and r2: "2 < sz \<Longrightarrow> inRange 0x80 0xBF (ch ! 2)"
        and r3: "3 < sz \<Longrightarrow> inRange 0x80 0xBF (ch ! 3)"
        by auto
      from leadByte_Some[OF lb] have "sz = 2 \<or> sz = 3 \<or> sz = 4" by auto
      then show ?thesis
      proof (elim disjE)
        assume s2: "sz = 2"
        with sz ch have "length bs = Suc 0" by simp
        then obtain b1 where bs: "bs = [b1]" by (auto simp: length_Suc_conv)
        from lb s2 have lb': "leadByte b0 = Some (2, lo, hi)" by simp
        from r1 ch bs have "inRange lo hi b1" by simp
        with lb' False have "utf8Width (b0 # b1 # rest) = 2" by (simp add: utf8Width_def)
        then show ?thesis by (simp add: ch bs)
      next
        assume s3: "sz = 3"
        with sz ch have "length bs = Suc (Suc 0)" by simp
        then obtain b1 b2 where bs: "bs = [b1, b2]" by (auto simp: length_Suc_conv)
        from lb s3 have lb': "leadByte b0 = Some (3, lo, hi)" by simp
        from r1 r2 s3 ch bs have "inRange lo hi b1" "inRange 0x80 0xBF b2" by simp_all
        with lb' False have "utf8Width (b0 # b1 # b2 # rest) = 3" by (simp add: utf8Width_def)
        then show ?thesis by (simp add: ch bs)
      next
        assume s4: "sz = 4"
        with sz ch have "length bs = Suc (Suc (Suc 0))" by simp
        then obtain b1 b2 b3 where bs: "bs = [b1, b2, b3]" by (auto simp: length_Suc_conv)
        from lb s4 have lb': "leadByte b0 = Some (4, lo, hi)" by simp
        from r1 r2 r3 s4 ch bs have "inRange lo hi b1" "inRange 0x80 0xBF b2" "inRange 0x80 0xBF b3"
          by simp_all
        with lb' False have "utf8Width (b0 # b1 # b2 # b3 # rest) = 4" by (simp add: utf8Width_def)
        then show ?thesis by (simp add: ch bs)
      qed
    qed
  qed
qed

lemma rune_wellFormed:
  assumes "wellFormed ch"
  shows "runeWidth (ch @ rest) = length ch" and "runeString (ch @ rest) = ch"
  using utf8Width_append[OF assms, of rest] assms
  by (auto simp: runeWidth_def runeString_def wellFormed_def)

lemma parseLoop_escaped:
  assumes "wellFormed ch"
  shows "parseLoop kb False (backslash # ch @ rest) = parseLoop (kb @ ch) False rest"
proof -
  from assms obtain b0 bs where ch: "ch = b0 # bs" by (cases ch) (auto simp: wellFormed_def)
  have w1: "runeWidth (backslash # ch @ rest) = 1"
    by (simp add: runeWidth_def utf8Width_ascii backslash_def)
  have "parseLoop kb False (backslash # ch @ rest) = parseLoop kb True (ch @ rest)"
    using w1 by (simp add: runeString_backslash)
  also have "\<dots> = parseLoop kb True (b0 # bs @ rest)" by (simp add: ch)
  also have "\<dots> = parseLoop (kb @ runeString (ch @ rest)) False (drop (runeWidth (ch @ rest)) (ch @ rest))"
    by (simp add: ch)
  also have "\<dots> = parseLoop (kb @ ch) False rest"
    using rune_wellFormed[OF assms, of rest] by simp
  finally show ?thesis .
qed

lemma parseLoop_plain:
  assumes "wellFormed ch" "ch \<noteq> [backslash]" "\<not> sepStart (hd ch)"
  shows "parseLoop kb False (ch @ rest) = parseLoop (kb @ ch) False rest"
proof -
  from assms obtain b0 bs where ch: "ch = b0 # bs" by (cases ch) (auto simp: wellFormed_def)
  from rune_wellFormed[OF assms(1), of rest]
  have rw: "runeWidth (b0 # bs @ rest) = length ch" and rs: "runeString (b0 # bs @ rest) = ch"
    by (simp_all add: ch)
  have nf: "List.find (\<lambda>sp. prefix sp (b0 # bs @ rest)) separators = None"
    using firstSep_None[of "b0 # bs @ rest"] assms(3) ch by (simp add: firstSep_def)
  have "parseLoop kb False (b0 # bs @ rest) =
          parseLoop (kb @ ch) False (drop (length ch) (b0 # bs @ rest))"
    using rw rs nf assms(2) by (subst parseLoop.simps) simp
  then show ?thesis by (simp add: ch)
qed

lemma parseLoop_sep:
  assumes "kb \<noteq> []" "firstSep (sp @ v) = Some sp"
  shows "parseLoop kb False (sp @ v) = Inr \<lparr>key = kb, sep = sp, val = v\<rparr>"
proof -
  from firstSep_Some[OF assms(2)] separators_hd[of sp] obtain c cs where sp: "sp = c # cs"
    and st: "sepStart c" by (cases sp) auto
  have nb: "runeString (c # cs @ v) \<noteq> [backslash]"
    using st runeString_backslash[of c "cs @ v"] by (auto simp: sepStart_def backslash_def)
  have f: "List.find (\<lambda>x. prefix x (c # cs @ v)) separators = Some sp"
    using assms(2) by (simp add: firstSep_def sp)
  have "parseLoop kb False (c # cs @ v) = Inr \<lparr>key = kb, sep = sp, val = drop (length sp) (c # cs @ v)\<rparr>"
    using nb f assms(1) by (subst parseLoop.simps) simp
  then show ?thesis by (simp add: sp)
qed

lemma parseLoop_items:
  assumes "list_all itemOk items"
  shows "parseLoop kb False (concat (map renderItem items) @ rest)
           = parseLoop (kb @ concat (map snd items)) False rest"
  using assms
proof (induction items arbitrary: kb)
  case Nil
  then show ?case by simp
next
  case (Cons it items)
  obtain e ch where it: "it = (e, ch)" by (cases it)
  from Cons.prems have ok: "itemOk (e, ch)" and oks: "list_all itemOk items" by (simp_all add: it)
  let ?rest = "concat (map renderItem items) @ rest"
  have "parseLoop kb False (renderItem (e, ch) @ ?rest) = parseLoop (kb @ ch) False ?rest"
  proof (cases e)
    case True
    with ok parseLoop_escaped[of ch kb ?rest] show ?thesis by (simp add: renderItem_def itemOk_def)
  next
    case False
    with ok parseLoop_plain[of ch kb ?rest] show ?thesis by (simp add: renderItem_def itemOk_def)
  qed
  with Cons.IH[OF oks, of "kb @ ch"] show ?case by (simp add: it)
qed

lemma roundtrip:
  assumes "items \<noteq> []" "list_all itemOk items" "firstSep (sp @ v) = Some sp"
  shows "parseKeyVal (concat (map renderItem items) @ sp @ v)
           = Inr \<lparr>key = concat (map snd items), sep = sp, val = v\<rparr>"
proof -
  from assms(1,2) have "concat (map snd items) \<noteq> []"
    by (cases items) (auto simp: itemOk_def wellFormed_def)
  with parseLoop_items[OF assms(2), of "[]" "sp @ v"] parseLoop_sep[OF _ assms(3)]
  show ?thesis by (simp add: parseKeyVal_def)
qed

subsection \<open>Every token\<close>

lemma runeString_ne: "runeString (c # cs) \<noteq> []"
proof (cases "utf8Width (c # cs) = 0")
  case True
  then show ?thesis by (simp add: runeString_def runeError_def)
next
  case False
  then show ?thesis by (simp add: runeString_def)
qed

lemma unskip_step:
  assumes M: "matchesFirst ctx (r @ rest) sp v"
    and esc: "escapedAfter (ctx @ r) = escapedAfter ctx'"
    and inside: "\<And>p q. r @ rest = p @ q \<Longrightarrow> length p < length r \<Longrightarrow>
                   escapedAfter (ctx @ p) \<or> firstSep q = None"
  shows "matchesFirst ctx' rest sp v"
proof -
  from M[unfolded matchesFirst_def] obtain pre where
    P: "r @ rest = pre @ sp @ v \<and> \<not> escapedAfter (ctx @ pre) \<and> firstSep (sp @ v) = Some sp
        \<and> (\<forall>p q. r @ rest = p @ q \<and> length p < length pre \<longrightarrow>
              escapedAfter (ctx @ p) \<or> firstSep q = None)" ..
  note eq = conjunct1[OF P]
  note ne = conjunct1[OF conjunct2[OF P]]
  note fs = conjunct1[OF conjunct2[OF conjunct2[OF P]]]
  note left0 = conjunct2[OF conjunct2[OF conjunct2[OF P]]]
  have ge: "length r \<le> length pre"
  proof (rule ccontr)
    assume "\<not> length r \<le> length pre"
    then have "length pre < length r" by simp
    from inside[OF eq this] ne fs show False by simp
  qed
  define pre' where "pre' = drop (length r) pre"
  from eq have "take (length r) (r @ rest) = take (length r) (pre @ sp @ v)" by simp
  with ge have "r = take (length r) pre" by simp
  then have pre: "pre = r @ pre'"
    unfolding pre'_def using append_take_drop_id[of "length r" pre] by simp
  with eq have rest: "rest = pre' @ sp @ v" by simp
  have e: "escapedAfter (ctx @ r @ x) = escapedAfter (ctx' @ x)" for x
    using escapedAfter_cong[OF esc, of x] by simp
  have left: "escapedAfter (ctx' @ p) \<or> firstSep q = None"
    if "rest = p @ q" "length p < length pre'" for p q
  proof -
    from that pre have "r @ rest = (r @ p) @ q \<and> length (r @ p) < length pre" by simp
    from left0[rule_format, OF this] e[of p] show ?thesis by simp
  qed
  show ?thesis unfolding matchesFirst_def
  proof (intro exI[of _ pre'] conjI allI impI)
    show "rest = pre' @ sp @ v" by (rule rest)
    show "\<not> escapedAfter (ctx' @ pre')" using ne e[of pre'] pre by simp
    show "firstSep (sp @ v) = Some sp" by (rule fs)
  next
    fix p q assume "rest = p @ q \<and> length p < length pre'"
    then show "escapedAfter (ctx' @ p) \<or> firstSep q = None" using left[of p q] by simp
  qed
qed

lemma matchesFirst_here:
  assumes M: "matchesFirst [] t sp v" and f: "firstSep t = Some sp'"
  shows "t = sp @ v \<and> sp' = sp"
proof -
  from M[unfolded matchesFirst_def] obtain pre where
    P: "t = pre @ sp @ v \<and> \<not> escapedAfter ([] @ pre) \<and> firstSep (sp @ v) = Some sp
        \<and> (\<forall>p q. t = p @ q \<and> length p < length pre \<longrightarrow>
              escapedAfter ([] @ p) \<or> firstSep q = None)" ..
  note eq = conjunct1[OF P]
  note fs = conjunct1[OF conjunct2[OF conjunct2[OF P]]]
  note left0 = conjunct2[OF conjunct2[OF conjunct2[OF P]]]
  have "pre = []"
  proof (rule ccontr)
    assume "pre \<noteq> []"
    then have "t = [] @ t \<and> length ([]::string) < length pre" by simp
    from left0[rule_format, OF this] f show False by (simp add: escapedAfter_Nil)
  qed
  with eq have t: "t = sp @ v" by simp
  with fs f have "sp' = sp" by simp
  with t show ?thesis by simp
qed

lemma matchesFirst_nonempty: "matchesFirst ctx t sp v \<Longrightarrow> t \<noteq> []"
proof
  assume M: "matchesFirst ctx t sp v" and t: "t = []"
  from M[unfolded matchesFirst_def] obtain pre where
    P: "t = pre @ sp @ v \<and> \<not> escapedAfter (ctx @ pre) \<and> firstSep (sp @ v) = Some sp
        \<and> (\<forall>p q. t = p @ q \<and> length p < length pre \<longrightarrow>
              escapedAfter (ctx @ p) \<or> firstSep q = None)" ..
  note eq = conjunct1[OF P]
  note fs = conjunct1[OF conjunct2[OF conjunct2[OF P]]]
  from eq t have "sp = []" by simp
  with firstSep_Some[OF fs] separators_hd[of sp] show False by simp
qed


lemma parseLoop_found:
  "matchesFirst (ctxOf wb) t sp v \<Longrightarrow> kb \<noteq> [] \<or> wb \<or> firstSep t = None \<Longrightarrow>
     \<exists>k. k \<noteq> [] \<and> parseLoop kb wb t = Inr \<lparr>key = k, sep = sp, val = v\<rparr>"
proof (induction kb wb t rule: parseLoop.induct)
  case (1 keyBytes wasBackslash)
  from matchesFirst_nonempty[OF "1.prems"(1)] show ?case by simp
next
  case (2 keyBytes wasBackslash c cs)
  define t where "t = c # cs"
  define r where "r = take (runeWidth t) t"
  define rest where "rest = drop (runeWidth t) t"
  have tne: "t \<noteq> []" by (simp add: t_def)
  have split: "t = r @ rest" by (simp add: r_def rest_def)
  have lenr: "length r = runeWidth t" using runeWidth_le[OF tne] by (simp add: r_def)
  have inside0: "firstSep q = None" if "r @ rest = p @ q" "p \<noteq> []" "length p < length r" for p q
    using inside_rune[of t p q] that split lenr by simp
  have bs: "(runeString t = [backslash]) = (c = backslash)"
    by (simp add: t_def runeString_backslash)
  have rne: "keyBytes @ runeString (c # cs) \<noteq> []" using runeString_ne[of c cs] by simp
  from "2.prems"(1) have M: "matchesFirst (ctxOf wasBackslash) (r @ rest) sp v"
    using split by (simp add: t_def)
  show ?case
  proof (cases "runeString t = [backslash] \<and> \<not> wasBackslash")
    case True
    then have c: "c = backslash" and nwb: "\<not> wasBackslash" using bs by simp_all
    from True have cond: "runeString (c # cs) = [backslash] \<and> \<not> wasBackslash" by (simp add: t_def)
    have w1: "runeWidth t = 1" using c by (simp add: t_def runeWidth_def utf8Width_ascii backslash_def)
    have rb: "r = [backslash]" using w1 c by (simp add: r_def t_def)
    have M': "matchesFirst [backslash] rest sp v"
    proof (rule unskip_step[of "[]" r rest sp v])
      show "matchesFirst [] (r @ rest) sp v" using M nwb by (simp add: ctxOf_def)
      show "escapedAfter ([] @ r) = escapedAfter [backslash]" using rb by simp
    next
      fix p q assume eq: "r @ rest = p @ q" and len: "length p < length r"
      from len rb have p: "p = []" by simp
      with eq rb have "q = backslash # rest" by simp
      then have "firstSep q = None" by (simp add: firstSep_None sepStart_def backslash_def)
      then show "escapedAfter ([] @ p) \<or> firstSep q = None" ..
    qed
    have M'': "matchesFirst (ctxOf True) (drop (runeWidth (c # cs)) (c # cs)) sp v"
      using M' by (simp add: ctxOf_def rest_def t_def)
    have G: "keyBytes \<noteq> [] \<or> True \<or> firstSep (drop (runeWidth (c # cs)) (c # cs)) = None" by simp
    from "2.IH"(1)[OF cond M'' G] cond show ?thesis by simp
  next
    case nb: False
    then have cond1: "\<not> (runeString (c # cs) = [backslash] \<and> \<not> wasBackslash)" by (simp add: t_def)
    show ?thesis
    proof (cases wasBackslash)
      case True
      have M': "matchesFirst [] rest sp v"
      proof (rule unskip_step[of "[backslash]" r rest sp v])
        show "matchesFirst [backslash] (r @ rest) sp v" using M True by (simp add: ctxOf_def)
        show "escapedAfter ([backslash] @ r) = escapedAfter []"
          using rune_not_escaping(1)[of t c cs] by (simp add: escapedAfter_Nil r_def t_def)
      next
        fix p q assume eq: "r @ rest = p @ q" and len: "length p < length r"
        show "escapedAfter ([backslash] @ p) \<or> firstSep q = None"
        proof (cases "p = []")
          case True
          then show ?thesis by (simp add: escapedAfter_single)
        next
          case False
          from inside0[OF eq False len] show ?thesis ..
        qed
      qed
      have M'': "matchesFirst (ctxOf False) (drop (runeWidth (c # cs)) (c # cs)) sp v"
        using M' by (simp add: ctxOf_def rest_def t_def)
      have G: "keyBytes @ runeString (c # cs) \<noteq> [] \<or> False
                 \<or> firstSep (drop (runeWidth (c # cs)) (c # cs)) = None"
        using rne by simp
      from "2.IH"(2)[OF cond1 True M'' G] cond1 True show ?thesis by simp
    next
      case False
      from nb False have cb: "c \<noteq> backslash" using bs by simp
      show ?thesis
      proof (cases "firstSep t")
        case None
        then have none': "List.find (\<lambda>sp. prefix sp (c # cs)) separators = None"
          by (simp add: firstSep_def t_def)
        have M': "matchesFirst [] rest sp v"
        proof (rule unskip_step[of "[]" r rest sp v])
          show "matchesFirst [] (r @ rest) sp v" using M False by (simp add: ctxOf_def)
          show "escapedAfter ([] @ r) = escapedAfter []"
            using rune_not_escaping(2)[of t c cs] cb by (simp add: escapedAfter_Nil r_def t_def)
        next
          fix p q assume eq: "r @ rest = p @ q" and len: "length p < length r"
          show "escapedAfter ([] @ p) \<or> firstSep q = None"
          proof (cases "p = []")
            case True
            with eq split have "q = t" by simp
            with None show ?thesis by simp
          next
            case False
            from inside0[OF eq False len] show ?thesis ..
          qed
        qed
        have M'': "matchesFirst (ctxOf False) (drop (runeWidth (c # cs)) (c # cs)) sp v"
          using M' by (simp add: ctxOf_def rest_def t_def)
        have G: "keyBytes @ runeString (c # cs) \<noteq> [] \<or> False
                 \<or> firstSep (drop (runeWidth (c # cs)) (c # cs)) = None"
          using rne by simp
        from "2.IH"(3)[OF cond1 False none' M'' G] cond1 False none' show ?thesis by simp
      next
        case (Some sp')
        from M False have M0: "matchesFirst [] t sp v" using split by (simp add: ctxOf_def)
        from matchesFirst_here[OF M0 Some] have t: "t = sp @ v" and sp: "sp' = sp" by simp_all
        from Some sp have some': "List.find (\<lambda>sp. prefix sp (c # cs)) separators = Some sp"
          by (simp add: firstSep_def t_def)
        from "2.prems"(2) False Some have kb: "keyBytes \<noteq> []" by (simp add: t_def)
        have d: "drop (length sp) (c # cs) = v" using t by (simp add: t_def)
        have "parseLoop keyBytes wasBackslash (c # cs) = Inr \<lparr>key = keyBytes, sep = sp, val = v\<rparr>"
          using cond1 False some' kb d by simp
        with kb show ?thesis by simp
      qed
    qed
  qed
qed

lemma parseLoop_none:
  "\<forall>p q. t = p @ q \<longrightarrow> escapedAfter (ctxOf wb @ p) \<or> firstSep q = None \<Longrightarrow>
     parseLoop kb wb t = Inl NoSeparator"
proof (induction kb wb t rule: parseLoop.induct)
  case (1 keyBytes wasBackslash)
  show ?case by simp
next
  case (2 keyBytes wasBackslash c cs)
  define t where "t = c # cs"
  define r where "r = take (runeWidth t) t"
  define rest where "rest = drop (runeWidth t) t"
  have tne: "t \<noteq> []" by (simp add: t_def)
  have split: "t = r @ rest" by (simp add: r_def rest_def)
  have bs: "(runeString t = [backslash]) = (c = backslash)"
    by (simp add: t_def runeString_backslash)
  have N: "escapedAfter (ctxOf wasBackslash @ p) \<or> firstSep q = None" if "t = p @ q" for p q
    using "2.prems"[rule_format, of p q] that by (simp add: t_def)
  have N': "escapedAfter (ctxOf wasBackslash @ r @ p) \<or> firstSep q = None" if "rest = p @ q" for p q
    using N[of "r @ p" q] that split by simp
  show ?case
  proof (cases "runeString t = [backslash] \<and> \<not> wasBackslash")
    case True
    then have c: "c = backslash" and nwb: "\<not> wasBackslash" using bs by simp_all
    from True have cond: "runeString (c # cs) = [backslash] \<and> \<not> wasBackslash" by (simp add: t_def)
    have w1: "runeWidth t = 1" using c by (simp add: t_def runeWidth_def utf8Width_ascii backslash_def)
    have rb: "r = [backslash]" using w1 c by (simp add: r_def t_def)
    have "\<forall>p q. drop (runeWidth (c # cs)) (c # cs) = p @ q \<longrightarrow>
             escapedAfter (ctxOf True @ p) \<or> firstSep q = None"
    proof (intro allI impI)
      fix p q assume "drop (runeWidth (c # cs)) (c # cs) = p @ q"
      then have "rest = p @ q" by (simp add: rest_def t_def)
      from N'[OF this] show "escapedAfter (ctxOf True @ p) \<or> firstSep q = None"
        using rb nwb by (simp add: ctxOf_def)
    qed
    from "2.IH"(1)[OF cond this] cond show ?thesis by simp
  next
    case nb: False
    then have cond1: "\<not> (runeString (c # cs) = [backslash] \<and> \<not> wasBackslash)" by (simp add: t_def)
    show ?thesis
    proof (cases wasBackslash)
      case True
      have e: "escapedAfter ([backslash] @ r @ x) = escapedAfter ([] @ x)" for x
      proof -
        have "escapedAfter ([backslash] @ r) = escapedAfter []"
          using rune_not_escaping(1)[of t c cs] by (simp add: escapedAfter_Nil r_def t_def)
        from escapedAfter_cong[OF this, of x] show ?thesis by simp
      qed
      have "\<forall>p q. drop (runeWidth (c # cs)) (c # cs) = p @ q \<longrightarrow>
             escapedAfter (ctxOf False @ p) \<or> firstSep q = None"
      proof (intro allI impI)
        fix p q assume "drop (runeWidth (c # cs)) (c # cs) = p @ q"
        then have "rest = p @ q" by (simp add: rest_def t_def)
        from N'[OF this] show "escapedAfter (ctxOf False @ p) \<or> firstSep q = None"
          using True e[of p] by (simp add: ctxOf_def)
      qed
      from "2.IH"(2)[OF cond1 True this] cond1 True show ?thesis by simp
    next
      case False
      from nb False have cb: "c \<noteq> backslash" using bs by simp
      from N[of "[]" t] False have none: "firstSep t = None"
        by (simp add: ctxOf_def escapedAfter_Nil)
      then have none': "List.find (\<lambda>sp. prefix sp (c # cs)) separators = None"
        by (simp add: firstSep_def t_def)
      have e: "escapedAfter ([] @ r @ x) = escapedAfter ([] @ x)" for x
      proof -
        have "escapedAfter ([] @ r) = escapedAfter []"
          using rune_not_escaping(2)[of t c cs] cb by (simp add: escapedAfter_Nil r_def t_def)
        from escapedAfter_cong[OF this, of x] show ?thesis by simp
      qed
      have "\<forall>p q. drop (runeWidth (c # cs)) (c # cs) = p @ q \<longrightarrow>
             escapedAfter (ctxOf False @ p) \<or> firstSep q = None"
      proof (intro allI impI)
        fix p q assume "drop (runeWidth (c # cs)) (c # cs) = p @ q"
        then have "rest = p @ q" by (simp add: rest_def t_def)
        from N'[OF this] show "escapedAfter (ctxOf False @ p) \<or> firstSep q = None"
          using False e[of p] by (simp add: ctxOf_def)
      qed
      from "2.IH"(3)[OF cond1 False none' this] cond1 False none' show ?thesis by simp
    qed
  qed
qed

lemma parseLoop_empty_key:
  assumes "firstSep (sp @ v) = Some sp"
  shows "parseLoop [] False (sp @ v) = Inl EmptyKey"
proof -
  from firstSep_Some[OF assms] separators_hd[of sp] obtain c cs where sp: "sp = c # cs"
    and st: "sepStart c" by (cases sp) auto
  have nb: "runeString (c # cs @ v) \<noteq> [backslash]"
    using st runeString_backslash[of c "cs @ v"] by (auto simp: sepStart_def backslash_def)
  have f: "List.find (\<lambda>x. prefix x (c # cs @ v)) separators = Some sp"
    using assms by (simp add: firstSep_def sp)
  have "parseLoop [] False (c # cs @ v) = Inl EmptyKey"
    using nb f by (subst parseLoop.simps) simp
  then show ?thesis by (simp add: sp)
qed


lemma no_match_iff: "(firstSep q = None) = (\<forall>x\<in>set separators. \<not> prefix x q)"
  by (auto simp: firstSep_def find_None_iff)

lemma parseKeyVal_found:
  assumes ne: "\<not> escapedAfter pre"
    and fs: "List.find (\<lambda>x. prefix x (sp @ v)) separators = Some sp"
    and left: "\<forall>p q. pre @ sp @ v = p @ q \<and> length p < length pre \<longrightarrow>
                 escapedAfter p \<or> (\<forall>x\<in>set separators. \<not> prefix x q)"
  shows "if pre = [] then parseKeyVal (pre @ sp @ v) = Inl EmptyKey
         else \<exists>k. k \<noteq> [] \<and> parseKeyVal (pre @ sp @ v) = Inr \<lparr>key = k, sep = sp, val = v\<rparr>"
proof (cases "pre = []")
  case True
  from fs have "firstSep (sp @ v) = Some sp" by (simp add: firstSep_def)
  from parseLoop_empty_key[OF this] True show ?thesis by (simp add: parseKeyVal_def)
next
  case False
  from fs have f: "firstSep (sp @ v) = Some sp" by (simp add: firstSep_def)
  have M: "matchesFirst (ctxOf False) (pre @ sp @ v) sp v"
    unfolding matchesFirst_def
  proof (intro exI[of _ pre] conjI allI impI)
    show "pre @ sp @ v = pre @ sp @ v" by (rule refl)
    show "\<not> escapedAfter (ctxOf False @ pre)" using ne by (simp add: ctxOf_def)
    show "firstSep (sp @ v) = Some sp" by (rule f)
  next
    fix p q assume a: "pre @ sp @ v = p @ q \<and> length p < length pre"
    from left[rule_format, OF a] show "escapedAfter (ctxOf False @ p) \<or> firstSep q = None"
      by (simp add: ctxOf_def no_match_iff)
  qed
  from False have "pre @ sp @ v = [] @ (pre @ sp @ v) \<and> length ([]::string) < length pre" by simp
  from left[rule_format, OF this] have "firstSep (pre @ sp @ v) = None"
    by (simp add: escapedAfter_Nil no_match_iff)
  then have G: "([]::string) \<noteq> [] \<or> False \<or> firstSep (pre @ sp @ v) = None" by simp
  from parseLoop_found[OF M G] False show ?thesis by (simp add: parseKeyVal_def)
qed

lemma parseKeyVal_none:
  assumes "\<forall>p q. s = p @ q \<longrightarrow> escapedAfter p \<or> (\<forall>x\<in>set separators. \<not> prefix x q)"
  shows "parseKeyVal s = Inl NoSeparator"
proof -
  have "\<forall>p q. s = p @ q \<longrightarrow> escapedAfter (ctxOf False @ p) \<or> firstSep q = None"
  proof (intro allI impI)
    fix p q assume "s = p @ q"
    from assms[rule_format, OF this] show "escapedAfter (ctxOf False @ p) \<or> firstSep q = None"
      by (simp add: ctxOf_def no_match_iff)
  qed
  from parseLoop_none[OF this] show ?thesis by (simp add: parseKeyVal_def)
qed

lemma leftmost_exists:
  "(\<forall>p q. s = p @ q \<longrightarrow> escapedAfter p \<or> (\<forall>x\<in>set separators. \<not> prefix x q))
   \<or> (\<exists>pre sp v. s = pre @ sp @ v \<and> \<not> escapedAfter pre
         \<and> List.find (\<lambda>x. prefix x (sp @ v)) separators = Some sp
         \<and> (\<forall>p q. s = p @ q \<and> length p < length pre \<longrightarrow>
               escapedAfter p \<or> (\<forall>x\<in>set separators. \<not> prefix x q)))"
proof (cases "\<forall>p q. s = p @ q \<longrightarrow> escapedAfter p \<or> firstSep q = None")
  case True
  then show ?thesis by (simp add: no_match_iff)
next
  case False
  define P where "P n = (\<exists>p q. s = p @ q \<and> length p = n \<and> \<not> escapedAfter p \<and> firstSep q \<noteq> None)" for n
  from False obtain p0 q0 where "s = p0 @ q0" "\<not> escapedAfter p0" "firstSep q0 \<noteq> None" by auto
  then have "P (length p0)" unfolding P_def by (intro exI[of _ p0] exI[of _ q0]) simp
  then have L0: "P (LEAST n. P n)" by (rule LeastI)
  define m where "m = (LEAST n. P n)"
  from L0 have L: "P m" by (simp add: m_def)
  have min: "\<not> P n" if "n < m" for n using not_less_Least[of n P] that by (simp add: m_def)
  from L have "\<exists>p q. s = p @ q \<and> length p = m \<and> \<not> escapedAfter p \<and> firstSep q \<noteq> None"
    by (simp only: P_def)
  then obtain pre where "\<exists>q. s = pre @ q \<and> length pre = m \<and> \<not> escapedAfter pre \<and> firstSep q \<noteq> None" ..
  then obtain q where
    Q: "s = pre @ q \<and> length pre = m \<and> \<not> escapedAfter pre \<and> firstSep q \<noteq> None" ..
  note s = conjunct1[OF Q]
  note len = conjunct1[OF conjunct2[OF Q]]
  note ne = conjunct1[OF conjunct2[OF conjunct2[OF Q]]]
  from Q obtain sp where sp: "firstSep q = Some sp" by (cases "firstSep q") simp_all
  from firstSep_Some[OF sp] have "prefix sp q" by simp
  then obtain v where q: "q = sp @ v" by (auto simp: prefix_def)
  have left: "escapedAfter p \<or> (\<forall>x\<in>set separators. \<not> prefix x r)"
    if "s = p @ r" "length p < length pre" for p r
  proof -
    from that(2) len have "\<not> P (length p)" using min[of "length p"] by simp
    then have "\<forall>pa q. \<not> (s = pa @ q \<and> length pa = length p \<and> \<not> escapedAfter pa \<and> firstSep q \<noteq> None)"
      by (simp add: P_def)
    then have "\<not> (s = p @ r \<and> length p = length p \<and> \<not> escapedAfter p \<and> firstSep r \<noteq> None)"
      by (elim allE[of _ p] allE[of _ r])
    with that(1) have "escapedAfter p \<or> firstSep r = None" by simp
    then show ?thesis by (simp add: no_match_iff)
  qed
  have "s = pre @ sp @ v \<and> \<not> escapedAfter pre
         \<and> List.find (\<lambda>x. prefix x (sp @ v)) separators = Some sp
         \<and> (\<forall>p q. s = p @ q \<and> length p < length pre \<longrightarrow>
               escapedAfter p \<or> (\<forall>x\<in>set separators. \<not> prefix x q))"
  proof (intro conjI allI impI)
    show "s = pre @ sp @ v" using s q by simp
    show "\<not> escapedAfter pre" by (rule ne)
    show "List.find (\<lambda>x. prefix x (sp @ v)) separators = Some sp"
      using sp q by (simp add: firstSep_def)
  next
    fix p r assume "s = p @ r \<and> length p < length pre"
    then show "escapedAfter p \<or> (\<forall>x\<in>set separators. \<not> prefix x r)" using left[of p r] by simp
  qed
  then have "\<exists>pre sp v. s = pre @ sp @ v \<and> \<not> escapedAfter pre
         \<and> List.find (\<lambda>x. prefix x (sp @ v)) separators = Some sp
         \<and> (\<forall>p q. s = p @ q \<and> length p < length pre \<longrightarrow>
               escapedAfter p \<or> (\<forall>x\<in>set separators. \<not> prefix x q))"
    by (intro exI)
  then show ?thesis ..
qed

subsection \<open>Ill-formed bytes\<close>

lemma illformed_high: "utf8Width (b # rest) = 0 \<Longrightarrow> highByte b"
  by (cases "(of_char b :: nat) < 0x80") (simp_all add: utf8Width_def highByte_def)

lemma parseLoop_illformed:
  assumes "utf8Width (b # rest) = 0"
  shows "parseLoop kb wb (b # rest) = parseLoop (kb @ runeError) False rest"
proof -
  note hb = illformed_high[OF assms]
  have nb: "runeString (b # rest) \<noteq> [backslash]"
    using highByte_not_backslash[OF hb] by (simp add: runeString_backslash)
  have rs: "runeString (b # rest) = runeError" using assms by (simp add: runeString_def)
  have rw: "runeWidth (b # rest) = 1" using assms by (simp add: runeWidth_def)
  have "firstSep (b # rest) = None"
    using highByte_not_sepStart[OF hb] by (simp add: firstSep_None)
  then have nf: "List.find (\<lambda>sp. prefix sp (b # rest)) separators = None"
    by (simp add: firstSep_def)
  show ?thesis
  proof (cases wb)
    case True
    then show ?thesis using nb rs rw by (subst parseLoop.simps) simp
  next
    case False
    then show ?thesis using nb rs rw nf by (subst parseLoop.simps) simp
  qed
qed

lemma parseLoop_escaped_illformed:
  assumes "utf8Width (b # rest) = 0"
  shows "parseLoop kb False (backslash # b # rest) = parseLoop (kb @ runeError) False rest"
proof -
  have w1: "runeWidth (backslash # b # rest) = 1"
    by (simp add: runeWidth_def utf8Width_ascii backslash_def)
  have "parseLoop kb False (backslash # b # rest) = parseLoop kb True (b # rest)"
    using w1 by (simp add: runeString_backslash)
  with parseLoop_illformed[OF assms, of kb True] show ?thesis by simp
qed

lemma utf8Width_take:
  assumes "0 < utf8Width t"
  shows "wellFormed (take (utf8Width t) t)"
proof -
  from assms obtain b0 bs where t: "t = b0 # bs" by (cases t) (auto simp: utf8Width_def)
  show ?thesis
  proof (cases "(of_char b0 :: nat) < 0x80")
    case True
    then have "utf8Width t = 1" by (simp add: t utf8Width_ascii)
    moreover have "utf8Width [b0] = 1" using True by (simp add: utf8Width_ascii)
    ultimately show ?thesis by (simp add: wellFormed_def t)
  next
    case False
    show ?thesis
    proof (cases "leadByte b0")
      case None
      with False assms t show ?thesis by (simp add: utf8Width_def)
    next
      case (Some a)
      then obtain sz lo hi where lb: "leadByte b0 = Some (sz, lo, hi)" by (cases a) auto
      from utf8Width_lead[OF False lb, of bs] assms t
      have w: "utf8Width t = sz" and le: "sz \<le> length t" and r1: "inRange lo hi (t ! 1)"
        and r2: "2 < sz \<Longrightarrow> inRange 0x80 0xBF (t ! 2)"
        and r3: "3 < sz \<Longrightarrow> inRange 0x80 0xBF (t ! 3)"
        by auto
      from leadByte_Some[OF lb] have "sz = 2 \<or> sz = 3 \<or> sz = 4" by auto
      then show ?thesis
      proof (elim disjE)
        assume s2: "sz = 2"
        with le t obtain b1 bt where bs: "bs = b1 # bt" by (cases bs) auto
        from lb s2 have lb2: "leadByte b0 = Some (2, lo, hi)" by simp
        from r1 t bs have "inRange lo hi b1" by simp
        with lb2 False have "utf8Width [b0, b1] = 2" by (simp add: utf8Width_def)
        then show ?thesis using w s2 by (simp add: wellFormed_def t bs)
      next
        assume s3: "sz = 3"
        with le t obtain b1 bt where bs: "bs = b1 # bt" by (cases bs) auto
        with s3 le t obtain b2 bu where bt: "bt = b2 # bu" by (cases bt) auto
        from lb s3 have lb3: "leadByte b0 = Some (3, lo, hi)" by simp
        from r1 r2 s3 t bs bt have "inRange lo hi b1" "inRange 0x80 0xBF b2" by simp_all
        with lb3 False have "utf8Width [b0, b1, b2] = 3" by (simp add: utf8Width_def)
        then show ?thesis using w s3 by (simp add: wellFormed_def t bs bt)
      next
        assume s4: "sz = 4"
        with le t obtain b1 bt where bs: "bs = b1 # bt" by (cases bs) auto
        with s4 le t obtain b2 bu where bt: "bt = b2 # bu" by (cases bt) auto
        with s4 le t bs obtain b3 bv where bu: "bu = b3 # bv" by (cases bu) auto
        from lb s4 have lb4: "leadByte b0 = Some (4, lo, hi)" by simp
        from r1 r2 r3 s4 t bs bt bu
        have "inRange lo hi b1" "inRange 0x80 0xBF b2" "inRange 0x80 0xBF b3" by simp_all
        with lb4 False have "utf8Width [b0, b1, b2, b3] = 4" by (simp add: utf8Width_def)
        then show ?thesis using w s4 by (simp add: wellFormed_def t bs bt bu)
      qed
    qed
  qed
qed

lemma first_character:
  assumes "t \<noteq> []"
  shows "utf8Width t = 0 \<or> (\<exists>ch rest. t = ch @ rest \<and> wellFormed ch)"
proof (cases "utf8Width t = 0")
  case True
  then show ?thesis ..
next
  case False
  then have "wellFormed (take (utf8Width t) t)" by (simp add: utf8Width_take)
  moreover have "t = take (utf8Width t) t @ drop (utf8Width t) t" by simp
  ultimately have "\<exists>ch rest. t = ch @ rest \<and> wellFormed ch" by (intro exI conjI)
  then show ?thesis ..
qed

subsection \<open>Separator choice and escaping\<close>

lemma firstSep_longest:
  assumes "firstSep q = Some sp" "sp' \<in> set separators" "prefix sp' q"
  shows "length sp' \<le> length sp"
proof -
  from firstSep_Some[OF assms(1)] have sp: "sp \<in> set separators" "prefix sp q" by simp_all
  from assms(1) have first: "\<And>x. x \<in> set (takeWhile (\<lambda>x. x \<noteq> sp) separators) \<Longrightarrow> \<not> prefix x q"
    unfolding firstSep_def separators_def find.simps
    by (auto split: if_splits)
  from sp(2) assms(3) have "prefix sp sp' \<or> prefix sp' sp" by (rule prefix_same_cases)
  then show ?thesis
  proof
    assume "prefix sp' sp"
    then show ?thesis by (rule prefix_length_le)
  next
    assume p: "prefix sp sp'"
    from sp(1) have "sp = '':=@'' \<or> sp = '':='' \<or> sp = '':'' \<or> sp = ''=='' \<or> sp = ''=@''
      \<or> sp = ''='' \<or> sp = ''@''" by (simp add: separators_def)
    moreover from assms(2) have "sp' = '':=@'' \<or> sp' = '':='' \<or> sp' = '':'' \<or> sp' = ''==''
      \<or> sp' = ''=@'' \<or> sp' = ''='' \<or> sp' = ''@''" by (simp add: separators_def)
    ultimately have "sp' = sp \<or> sp' \<in> set (takeWhile (\<lambda>x. x \<noteq> sp) separators)"
      using p by (elim disjE) (simp_all add: separators_def)
    with first[of sp'] assms(3) show ?thesis by auto
  qed
qed

lemma parseKeyVal_match:
  assumes "parseKeyVal s = Inr kv"
  shows "\<exists>pre i. s = pre @ sep kv @ val kv \<and> \<not> escapedAfter pre
           \<and> i < length separators \<and> sep kv = separators ! i
           \<and> (\<forall>j<i. \<not> prefix (separators ! j) (sep kv @ val kv))
           \<and> (\<forall>sp'\<in>set separators. prefix sp' (sep kv @ val kv) \<longrightarrow> length sp' \<le> length (sep kv))
           \<and> (\<forall>p q. s = p @ q \<and> length p < length pre \<longrightarrow>
                 escapedAfter p \<or> (\<forall>sp\<in>set separators. \<not> prefix sp q))"
proof -
  from assms have "matchesFirst (ctxOf False) s (sep kv) (val kv)"
    unfolding parseKeyVal_def by (rule parseLoop_match)
  then obtain pre where
    P: "s = pre @ sep kv @ val kv \<and> \<not> escapedAfter ([] @ pre)
        \<and> firstSep (sep kv @ val kv) = Some (sep kv)
        \<and> (\<forall>p q. s = p @ q \<and> length p < length pre \<longrightarrow>
              escapedAfter ([] @ p) \<or> firstSep q = None)"
    unfolding matchesFirst_def ctxOf_def if_False ..
  from P have f: "List.find (\<lambda>sp. prefix sp (sep kv @ val kv)) separators = Some (sep kv)"
    by (simp add: firstSep_def)
  from f[unfolded find_Some_iff] obtain i where
    I: "i < length separators \<and> prefix (separators ! i) (sep kv @ val kv)
        \<and> sep kv = separators ! i \<and> (\<forall>j<i. \<not> prefix (separators ! j) (sep kv @ val kv))" ..
  note i = conjunct1[OF I] conjunct1[OF conjunct2[OF conjunct2[OF I]]]
    conjunct2[OF conjunct2[OF conjunct2[OF I]]]
  from P have L: "\<forall>p q. s = p @ q \<and> length p < length pre \<longrightarrow>
              escapedAfter ([] @ p) \<or> firstSep q = None" by simp
  have left: "escapedAfter p \<or> (\<forall>sp\<in>set separators. \<not> prefix sp q)"
    if "s = p @ q" "length p < length pre" for p q
  proof -
    from L[rule_format, of p q] that have "escapedAfter p \<or> firstSep q = None" by simp
    then show ?thesis
    proof
      assume "escapedAfter p" then show ?thesis ..
    next
      assume "firstSep q = None"
      then have "\<forall>sp\<in>set separators. \<not> prefix sp q"
        by (simp add: firstSep_def find_None_iff)
      then show ?thesis ..
    qed
  qed
  show ?thesis
  proof (intro exI[of _ pre] exI[of _ i] conjI allI impI)
    show "s = pre @ sep kv @ val kv" using P by simp
    show "\<not> escapedAfter pre" using P by simp
    show "i < length separators" "sep kv = separators ! i" using i by simp_all
  next
    fix j assume "j < i"
    with i(3) show "\<not> prefix (separators ! j) (sep kv @ val kv)" by simp
  next
    from P have fs: "firstSep (sep kv @ val kv) = Some (sep kv)" by simp
    show "\<forall>sp'\<in>set separators. prefix sp' (sep kv @ val kv) \<longrightarrow> length sp' \<le> length (sep kv)"
    proof (intro ballI impI)
      fix sp' assume "sp' \<in> set separators" "prefix sp' (sep kv @ val kv)"
      then show "length sp' \<le> length (sep kv)" by (rule firstSep_longest[OF fs])
    qed
  next
    fix p q assume "s = p @ q \<and> length p < length pre"
    then show "escapedAfter p \<or> (\<forall>sp\<in>set separators. \<not> prefix sp q)" using left[of p q] by simp
  qed
qed

lemma parse_examples:
  "parseKeyVal ''k:=@v'' = Inr \<lparr>key = ''k'', sep = '':=@'', val = ''v''\<rparr>"
  "parseKeyVal ''k==v'' = Inr \<lparr>key = ''k'', sep = ''=='', val = ''v''\<rparr>"
  "parseKeyVal [CHR ''a'', backslash, CHR '':'', CHR ''b'', CHR ''='', CHR ''c'']
     = Inr \<lparr>key = ''a:b'', sep = ''='', val = ''c''\<rparr>"
  by (simp_all add: parseKeyVal_def runeString_def runeWidth_def utf8Width_def backslash_def
        separators_def)

text \<open>
  Claim C3. For every token the leftmost position that is not escaped and at which an
  entry of \<open>separators\<close> is a prefix of the rest of the token decides, and at that
  position the first such entry in the order \<^verbatim>\<open>:=@ := : == =@ = @\<close>:

  \<^item> whenever \<^verbatim>\<open>parseKeyVal\<close> returns a key-value pair, the token splits as
    \<open>pre @ sep @ val\<close> where the position after \<open>pre\<close> is not escaped, \<open>sep\<close> is the
    first entry of \<open>separators\<close> that is a prefix of the rest there, no entry that is a
    prefix there is longer, and at every earlier position the position is escaped or
    no entry is a prefix of the rest;
  \<^item> whenever a token splits in this way, \<^verbatim>\<open>parseKeyVal\<close> returns the separator \<open>sp\<close> and
    the value \<open>v\<close> with a non-empty key, or the error \<^verbatim>\<open>empty key\<close> when the separator is
    at the start of the token;
  \<^item> whenever no position of the token is of this kind, \<^verbatim>\<open>parseKeyVal\<close> returns the
    error \<^verbatim>\<open>no key-pair separator found\<close>;
  \<^item> every token is of one of these two kinds.

  In particular \<^verbatim>\<open>k:=@v\<close> gives the separator \<^verbatim>\<open>:=@\<close> and \<^verbatim>\<open>k==v\<close> gives \<^verbatim>\<open>==\<close>.
\<close>

theorem parseKeyVal_first_match:
  "(\<forall>s kv. parseKeyVal s = Inr kv \<longrightarrow>
      (\<exists>pre i. s = pre @ sep kv @ val kv \<and> \<not> escapedAfter pre
         \<and> i < length separators \<and> sep kv = separators ! i
         \<and> (\<forall>j<i. \<not> prefix (separators ! j) (sep kv @ val kv))
         \<and> (\<forall>sp'\<in>set separators. prefix sp' (sep kv @ val kv) \<longrightarrow> length sp' \<le> length (sep kv))
         \<and> (\<forall>p q. s = p @ q \<and> length p < length pre \<longrightarrow>
               escapedAfter p \<or> (\<forall>sp\<in>set separators. \<not> prefix sp q))))
   \<and> (\<forall>pre sp v.
        \<not> escapedAfter pre
        \<and> List.find (\<lambda>x. prefix x (sp @ v)) separators = Some sp
        \<and> (\<forall>p q. pre @ sp @ v = p @ q \<and> length p < length pre \<longrightarrow>
              escapedAfter p \<or> (\<forall>x\<in>set separators. \<not> prefix x q)) \<longrightarrow>
        (if pre = [] then parseKeyVal (pre @ sp @ v) = Inl EmptyKey
         else \<exists>k. k \<noteq> [] \<and> parseKeyVal (pre @ sp @ v) = Inr \<lparr>key = k, sep = sp, val = v\<rparr>))
   \<and> (\<forall>s. (\<forall>p q. s = p @ q \<longrightarrow> escapedAfter p \<or> (\<forall>x\<in>set separators. \<not> prefix x q)) \<longrightarrow>
          parseKeyVal s = Inl NoSeparator)
   \<and> (\<forall>s. (\<forall>p q. s = p @ q \<longrightarrow> escapedAfter p \<or> (\<forall>x\<in>set separators. \<not> prefix x q))
          \<or> (\<exists>pre sp v. s = pre @ sp @ v \<and> \<not> escapedAfter pre
                \<and> List.find (\<lambda>x. prefix x (sp @ v)) separators = Some sp
                \<and> (\<forall>p q. s = p @ q \<and> length p < length pre \<longrightarrow>
                      escapedAfter p \<or> (\<forall>x\<in>set separators. \<not> prefix x q))))
   \<and> separators = ['':=@'', '':='', '':'', ''=='', ''=@'', ''='', ''@'']
   \<and> parseKeyVal ''k:=@v'' = Inr \<lparr>key = ''k'', sep = '':=@'', val = ''v''\<rparr>
   \<and> parseKeyVal ''k==v'' = Inr \<lparr>key = ''k'', sep = ''=='', val = ''v''\<rparr>"
proof -
  have c1: "\<forall>s kv. parseKeyVal s = Inr kv \<longrightarrow>
      (\<exists>pre i. s = pre @ sep kv @ val kv \<and> \<not> escapedAfter pre
         \<and> i < length separators \<and> sep kv = separators ! i
         \<and> (\<forall>j<i. \<not> prefix (separators ! j) (sep kv @ val kv))
         \<and> (\<forall>sp'\<in>set separators. prefix sp' (sep kv @ val kv) \<longrightarrow> length sp' \<le> length (sep kv))
         \<and> (\<forall>p q. s = p @ q \<and> length p < length pre \<longrightarrow>
               escapedAfter p \<or> (\<forall>sp\<in>set separators. \<not> prefix sp q)))"
  proof (intro allI impI)
    fix s kv assume "parseKeyVal s = Inr kv"
    then show "\<exists>pre i. s = pre @ sep kv @ val kv \<and> \<not> escapedAfter pre
         \<and> i < length separators \<and> sep kv = separators ! i
         \<and> (\<forall>j<i. \<not> prefix (separators ! j) (sep kv @ val kv))
         \<and> (\<forall>sp'\<in>set separators. prefix sp' (sep kv @ val kv) \<longrightarrow> length sp' \<le> length (sep kv))
         \<and> (\<forall>p q. s = p @ q \<and> length p < length pre \<longrightarrow>
               escapedAfter p \<or> (\<forall>sp\<in>set separators. \<not> prefix sp q))"
      by (rule parseKeyVal_match)
  qed
  have c2: "\<forall>pre sp v.
        \<not> escapedAfter pre
        \<and> List.find (\<lambda>x. prefix x (sp @ v)) separators = Some sp
        \<and> (\<forall>p q. pre @ sp @ v = p @ q \<and> length p < length pre \<longrightarrow>
              escapedAfter p \<or> (\<forall>x\<in>set separators. \<not> prefix x q)) \<longrightarrow>
        (if pre = [] then parseKeyVal (pre @ sp @ v) = Inl EmptyKey
         else \<exists>k. k \<noteq> [] \<and> parseKeyVal (pre @ sp @ v) = Inr \<lparr>key = k, sep = sp, val = v\<rparr>)"
  proof (intro allI impI)
    fix pre sp v
    assume a: "\<not> escapedAfter pre
        \<and> List.find (\<lambda>x. prefix x (sp @ v)) separators = Some sp
        \<and> (\<forall>p q. pre @ sp @ v = p @ q \<and> length p < length pre \<longrightarrow>
              escapedAfter p \<or> (\<forall>x\<in>set separators. \<not> prefix x q))"
    show "if pre = [] then parseKeyVal (pre @ sp @ v) = Inl EmptyKey
         else \<exists>k. k \<noteq> [] \<and> parseKeyVal (pre @ sp @ v) = Inr \<lparr>key = k, sep = sp, val = v\<rparr>"
      by (rule parseKeyVal_found[OF conjunct1[OF a] conjunct1[OF conjunct2[OF a]]
            conjunct2[OF conjunct2[OF a]]])
  qed
  have c3: "\<forall>s. (\<forall>p q. s = p @ q \<longrightarrow> escapedAfter p \<or> (\<forall>x\<in>set separators. \<not> prefix x q)) \<longrightarrow>
          parseKeyVal s = Inl NoSeparator"
  proof (intro allI impI)
    fix s assume "\<forall>p q. s = p @ q \<longrightarrow> escapedAfter p \<or> (\<forall>x\<in>set separators. \<not> prefix x q)"
    then show "parseKeyVal s = Inl NoSeparator" by (rule parseKeyVal_none)
  qed
  have c4: "\<forall>s. (\<forall>p q. s = p @ q \<longrightarrow> escapedAfter p \<or> (\<forall>x\<in>set separators. \<not> prefix x q))
          \<or> (\<exists>pre sp v. s = pre @ sp @ v \<and> \<not> escapedAfter pre
                \<and> List.find (\<lambda>x. prefix x (sp @ v)) separators = Some sp
                \<and> (\<forall>p q. s = p @ q \<and> length p < length pre \<longrightarrow>
                      escapedAfter p \<or> (\<forall>x\<in>set separators. \<not> prefix x q)))"
  proof
    fix s
    show "(\<forall>p q. s = p @ q \<longrightarrow> escapedAfter p \<or> (\<forall>x\<in>set separators. \<not> prefix x q))
          \<or> (\<exists>pre sp v. s = pre @ sp @ v \<and> \<not> escapedAfter pre
                \<and> List.find (\<lambda>x. prefix x (sp @ v)) separators = Some sp
                \<and> (\<forall>p q. s = p @ q \<and> length p < length pre \<longrightarrow>
                      escapedAfter p \<or> (\<forall>x\<in>set separators. \<not> prefix x q)))"
      by (rule leftmost_exists)
  qed
  have c5: "separators = ['':=@'', '':='', '':'', ''=='', ''=@'', ''='', ''@'']"
    by (simp add: separators_def)
  show ?thesis
    by (rule conjI[OF c1 conjI[OF c2 conjI[OF c3 conjI[OF c4 conjI[OF c5
          conjI[OF parse_examples(1) parse_examples(2)]]]]]])
qed

text \<open>
  The statement of C3 at the tokens \<^verbatim>\<open>ab:=@v\<close> and \<^verbatim>\<open>k==v\<close>, which have a separator after
  a key, \<^verbatim>\<open>:x\<close>, which starts with a separator, and \<^verbatim>\<open>abc\<close>, which has none.
\<close>

theorem parseKeyVal_first_match_witness:
  "parseKeyVal ''ab:=@v'' = Inr \<lparr>key = ''ab'', sep = '':=@'', val = ''v''\<rparr>
   \<and> (\<exists>pre i. ''ab:=@v'' = pre @ '':=@'' @ ''v'' \<and> \<not> escapedAfter pre
         \<and> i < length separators \<and> '':=@'' = separators ! i
         \<and> (\<forall>j<i. \<not> prefix (separators ! j) ('':=@'' @ ''v''))
         \<and> (\<forall>sp'\<in>set separators. prefix sp' ('':=@'' @ ''v'') \<longrightarrow> length sp' \<le> length '':=@'')
         \<and> (\<forall>p q. ''ab:=@v'' = p @ q \<and> length p < length pre \<longrightarrow>
               escapedAfter p \<or> (\<forall>sp\<in>set separators. \<not> prefix sp q)))
   \<and> \<not> escapedAfter ''k''
   \<and> List.find (\<lambda>x. prefix x (''=='' @ ''v'')) separators = Some ''==''
   \<and> (\<exists>k. k \<noteq> [] \<and> parseKeyVal ''k==v'' = Inr \<lparr>key = k, sep = ''=='', val = ''v''\<rparr>)
   \<and> \<not> escapedAfter []
   \<and> List.find (\<lambda>x. prefix x ('':'' @ ''x'')) separators = Some '':''
   \<and> parseKeyVal '':x'' = Inl EmptyKey
   \<and> parseKeyVal ''abc'' = Inl NoSeparator"
proof -
  have h: "parseKeyVal ''ab:=@v'' = Inr \<lparr>key = ''ab'', sep = '':=@'', val = ''v''\<rparr>"
    by (simp add: parseKeyVal_def runeString_def runeWidth_def utf8Width_def backslash_def
          separators_def)
  note T = parseKeyVal_first_match
  note T1 = conjunct1[OF T]
  note T2 = conjunct1[OF conjunct2[OF T]]
  note T3 = conjunct1[OF conjunct2[OF conjunct2[OF T]]]
  from T1[rule_format, OF h] have a: "\<exists>pre i. ''ab:=@v'' = pre @ '':=@'' @ ''v'' \<and> \<not> escapedAfter pre
         \<and> i < length separators \<and> '':=@'' = separators ! i
         \<and> (\<forall>j<i. \<not> prefix (separators ! j) ('':=@'' @ ''v''))
         \<and> (\<forall>sp'\<in>set separators. prefix sp' ('':=@'' @ ''v'') \<longrightarrow> length sp' \<le> length '':=@'')
         \<and> (\<forall>p q. ''ab:=@v'' = p @ q \<and> length p < length pre \<longrightarrow>
               escapedAfter p \<or> (\<forall>sp\<in>set separators. \<not> prefix sp q))"
    by (simp only: keyVal.simps)
  have e1: "\<not> escapedAfter ''k''" by (simp add: escapedAfter_single backslash_def)
  have f1: "List.find (\<lambda>x. prefix x (''=='' @ ''v'')) separators = Some ''==''"
    by (simp add: separators_def)
  have l1: "\<forall>p q. ''k'' @ ''=='' @ ''v'' = p @ q \<and> length p < length ''k'' \<longrightarrow>
              escapedAfter p \<or> (\<forall>x\<in>set separators. \<not> prefix x q)"
  proof (intro allI impI)
    fix p q :: string
    assume b: "''k'' @ ''=='' @ ''v'' = p @ q \<and> length p < length ''k''"
    then have p: "p = []" by simp
    with b have "q = ''k==v''" by simp
    then have "\<forall>x\<in>set separators. \<not> prefix x q" by (simp add: separators_def)
    then show "escapedAfter p \<or> (\<forall>x\<in>set separators. \<not> prefix x q)" ..
  qed
  from T2[rule_format, OF conjI[OF e1 conjI[OF f1 l1]]]
  have b: "\<exists>k. k \<noteq> [] \<and> parseKeyVal ''k==v'' = Inr \<lparr>key = k, sep = ''=='', val = ''v''\<rparr>"
    by simp
  have e2: "\<not> escapedAfter []" by (simp add: escapedAfter_Nil)
  have f2: "List.find (\<lambda>x. prefix x ('':'' @ ''x'')) separators = Some '':''"
    by (simp add: separators_def)
  have l2: "\<forall>p q. [] @ '':'' @ ''x'' = p @ q \<and> length p < length ([]::string) \<longrightarrow>
              escapedAfter p \<or> (\<forall>x\<in>set separators. \<not> prefix x q)"
    by simp
  from T2[rule_format, OF conjI[OF e2 conjI[OF f2 l2]]]
  have c: "parseKeyVal '':x'' = Inl EmptyKey" by simp
  have l3: "\<forall>p q. ''abc'' = p @ q \<longrightarrow> escapedAfter p \<or> (\<forall>x\<in>set separators. \<not> prefix x q)"
  proof (intro allI impI)
    fix p q :: string
    assume eq: "''abc'' = p @ q"
    have "q = [] \<or> \<not> sepStart (hd q)"
    proof (cases "q = []")
      case True
      then show ?thesis ..
    next
      case False
      then have "hd q \<in> set q" by simp
      then have "hd q \<in> set (p @ q)" by simp
      then have "hd q \<in> set ''abc''" by (simp only: eq[symmetric])
      then have "\<not> sepStart (hd q)" by (auto simp: sepStart_def)
      then show ?thesis ..
    qed
    then have "firstSep q = None" by (simp add: firstSep_None)
    then have "\<forall>x\<in>set separators. \<not> prefix x q" by (simp add: no_match_iff)
    then show "escapedAfter p \<or> (\<forall>x\<in>set separators. \<not> prefix x q)" ..
  qed
  have d: "parseKeyVal ''abc'' = Inl NoSeparator"
    by (rule mp[OF spec[OF T3, of "''abc''"] l3])
  show ?thesis
    by (rule conjI[OF h conjI[OF a conjI[OF e1 conjI[OF f1 conjI[OF b conjI[OF e2
          conjI[OF f2 conjI[OF c d]]]]]]]])
qed

text \<open>
  Claim C9, amended. Take a token whose key part is a non-empty sequence of well-formed
  UTF-8 characters, each either preceded by a backslash (any character, also a
  backslash or one that starts a separator) or written plainly (a character that is no
  backslash and starts no separator), followed by a separator \<open>sp\<close> and a value \<open>v\<close> such
  that \<open>sp\<close> is the first entry of \<open>separators\<close> that is a prefix of \<open>sp @ v\<close>. Then
  \<^verbatim>\<open>parseKeyVal\<close> returns the characters without their backslashes as the key, \<open>sp\<close> as the
  separator and \<open>v\<close>, byte for byte, as the value. At each step of the loop:

  \<^item> a backslash that is not escaped makes the loop go on after the character that
    follows, without looking for a separator there, and a well-formed character is
    appended to the key as it is;
  \<^item> a byte that starts no well-formed character is replaced in the key by the three
    bytes of U+FFFD, after a backslash or not;
  \<^item> a well-formed character without a backslash that is no backslash and starts no
    separator is appended to the key as it is;
  \<^item> at a separator, with a non-empty key, the loop returns the key, the first entry of
    \<open>separators\<close> that matches and the rest of the token, byte for byte, as the value.

  Every non-empty rest of a token starts with a byte that starts no well-formed
  character or with a well-formed character. In particular \<^verbatim>\<open>a\:b=c\<close> gives key \<^verbatim>\<open>a:b\<close>,
  separator \<^verbatim>\<open>=\<close> and value \<^verbatim>\<open>c\<close>.
\<close>

theorem parseKeyVal_escape_roundtrip:
  "(\<forall>items sp v.
      items \<noteq> [] \<and> list_all itemOk items
        \<and> List.find (\<lambda>x. prefix x (sp @ v)) separators = Some sp \<longrightarrow>
      parseKeyVal (concat (map renderItem items) @ sp @ v)
        = Inr \<lparr>key = concat (map snd items), sep = sp, val = v\<rparr>)
   \<and> (\<forall>kb ch rest. wellFormed ch \<longrightarrow>
         parseLoop kb False (backslash # ch @ rest) = parseLoop (kb @ ch) False rest)
   \<and> (\<forall>kb b rest. utf8Width (b # rest) = 0 \<longrightarrow>
         parseLoop kb False (backslash # b # rest) = parseLoop (kb @ runeError) False rest
         \<and> parseLoop kb False (b # rest) = parseLoop (kb @ runeError) False rest)
   \<and> (\<forall>kb ch rest. wellFormed ch \<and> ch \<noteq> [backslash] \<and> \<not> sepStart (hd ch) \<longrightarrow>
         parseLoop kb False (ch @ rest) = parseLoop (kb @ ch) False rest)
   \<and> (\<forall>kb sp v. kb \<noteq> [] \<and> List.find (\<lambda>x. prefix x (sp @ v)) separators = Some sp \<longrightarrow>
         parseLoop kb False (sp @ v) = Inr \<lparr>key = kb, sep = sp, val = v\<rparr>)
   \<and> (\<forall>t. t \<noteq> [] \<longrightarrow> utf8Width t = 0 \<or> (\<exists>ch rest. t = ch @ rest \<and> wellFormed ch))
   \<and> runeError = [CHR 0xEF, CHR 0xBF, CHR 0xBD]
   \<and> parseKeyVal [CHR ''a'', backslash, CHR '':'', CHR ''b'', CHR ''='', CHR ''c'']
        = Inr \<lparr>key = ''a:b'', sep = ''='', val = ''c''\<rparr>"
proof -
  have cp: "\<forall>kb ch rest. wellFormed ch \<and> ch \<noteq> [backslash] \<and> \<not> sepStart (hd ch) \<longrightarrow>
         parseLoop kb False (ch @ rest) = parseLoop (kb @ ch) False rest"
  proof (intro allI impI)
    fix kb ch rest :: string assume a: "wellFormed ch \<and> ch \<noteq> [backslash] \<and> \<not> sepStart (hd ch)"
    show "parseLoop kb False (ch @ rest) = parseLoop (kb @ ch) False rest"
      by (rule parseLoop_plain[OF conjunct1[OF a] conjunct1[OF conjunct2[OF a]]
            conjunct2[OF conjunct2[OF a]]])
  qed
  have cs: "\<forall>kb sp v. kb \<noteq> [] \<and> List.find (\<lambda>x. prefix x (sp @ v)) separators = Some sp \<longrightarrow>
         parseLoop kb False (sp @ v) = Inr \<lparr>key = kb, sep = sp, val = v\<rparr>"
  proof (intro allI impI)
    fix kb sp v :: string assume a: "kb \<noteq> [] \<and> List.find (\<lambda>x. prefix x (sp @ v)) separators = Some sp"
    then have f: "firstSep (sp @ v) = Some sp" by (simp add: firstSep_def)
    show "parseLoop kb False (sp @ v) = Inr \<lparr>key = kb, sep = sp, val = v\<rparr>"
      by (rule parseLoop_sep[OF conjunct1[OF a] f])
  qed
  have c1: "\<forall>items sp v.
      items \<noteq> [] \<and> list_all itemOk items
        \<and> List.find (\<lambda>x. prefix x (sp @ v)) separators = Some sp \<longrightarrow>
      parseKeyVal (concat (map renderItem items) @ sp @ v)
        = Inr \<lparr>key = concat (map snd items), sep = sp, val = v\<rparr>"
  proof (intro allI impI)
    fix items :: "(bool \<times> string) list" and sp v
    assume "items \<noteq> [] \<and> list_all itemOk items
        \<and> List.find (\<lambda>x. prefix x (sp @ v)) separators = Some sp"
    then have "items \<noteq> []" "list_all itemOk items" "firstSep (sp @ v) = Some sp"
      by (simp_all add: firstSep_def)
    then show "parseKeyVal (concat (map renderItem items) @ sp @ v)
        = Inr \<lparr>key = concat (map snd items), sep = sp, val = v\<rparr>"
      by (rule roundtrip)
  qed
  have c2: "\<forall>kb ch rest. wellFormed ch \<longrightarrow>
         parseLoop kb False (backslash # ch @ rest) = parseLoop (kb @ ch) False rest"
  proof (intro allI impI)
    fix kb ch rest assume "wellFormed ch"
    then show "parseLoop kb False (backslash # ch @ rest) = parseLoop (kb @ ch) False rest"
      by (rule parseLoop_escaped)
  qed
  have c3: "\<forall>kb b rest. utf8Width (b # rest) = 0 \<longrightarrow>
         parseLoop kb False (backslash # b # rest) = parseLoop (kb @ runeError) False rest
         \<and> parseLoop kb False (b # rest) = parseLoop (kb @ runeError) False rest"
  proof (intro allI impI)
    fix kb b rest assume w: "utf8Width (b # rest) = 0"
    show "parseLoop kb False (backslash # b # rest) = parseLoop (kb @ runeError) False rest
         \<and> parseLoop kb False (b # rest) = parseLoop (kb @ runeError) False rest"
      by (rule conjI[OF parseLoop_escaped_illformed[OF w] parseLoop_illformed[OF w]])
  qed
  have c4: "\<forall>t. t \<noteq> [] \<longrightarrow> utf8Width t = 0 \<or> (\<exists>ch rest. t = ch @ rest \<and> wellFormed ch)"
  proof (intro allI impI)
    fix t :: string assume "t \<noteq> []"
    then show "utf8Width t = 0 \<or> (\<exists>ch rest. t = ch @ rest \<and> wellFormed ch)"
      by (rule first_character)
  qed
  have c5: "runeError = [CHR 0xEF, CHR 0xBF, CHR 0xBD]" by (simp add: runeError_def)
  show ?thesis
    by (rule conjI[OF c1 conjI[OF c2 conjI[OF c3 conjI[OF cp conjI[OF cs conjI[OF c4
          conjI[OF c5 parse_examples(3)]]]]]]])
qed

text \<open>
  Claim C9 as stated fails for the token \<^verbatim>\<open>k\\<close>, byte \<^verbatim>\<open>FF\<close>, \<^verbatim>\<open>=v\<close>: the byte after the
  backslash is not copied into the key, the three bytes of U+FFFD are.
\<close>

theorem parseKeyVal_escape_counterexample:
  "parseKeyVal [CHR ''k'', backslash, CHR 0xFF, CHR ''='', CHR ''v'']
     = Inr \<lparr>key = [CHR ''k'', CHR 0xEF, CHR 0xBF, CHR 0xBD], sep = ''='', val = ''v''\<rparr>
   \<and> [CHR ''k'', CHR 0xEF, CHR 0xBF, CHR 0xBD] \<noteq> [CHR ''k'', CHR 0xFF]"
proof -
  have w: "utf8Width [CHR 0xFF, CHR ''='', CHR ''v''] = 0"
    by (simp add: utf8Width_def leadByte_def)
  have k: "parseLoop [] False (CHR ''k'' # [backslash, CHR 0xFF, CHR ''='', CHR ''v''])
             = parseLoop ''k'' False [backslash, CHR 0xFF, CHR ''='', CHR ''v'']"
    by (simp add: runeString_def runeWidth_def utf8Width_def backslash_def separators_def)
  have "parseLoop ''k'' False [backslash, CHR 0xFF, CHR ''='', CHR ''v'']
          = parseLoop (''k'' @ runeError) False ''=v''"
    by (rule parseLoop_escaped_illformed[OF w])
  also have "\<dots> = Inr \<lparr>key = ''k'' @ runeError, sep = ''='', val = ''v''\<rparr>"
    by (simp add: runeString_def runeWidth_def utf8Width_def backslash_def separators_def
          runeError_def)
  finally have "parseKeyVal [CHR ''k'', backslash, CHR 0xFF, CHR ''='', CHR ''v'']
     = Inr \<lparr>key = ''k'' @ runeError, sep = ''='', val = ''v''\<rparr>"
    using k by (simp add: parseKeyVal_def)
  then show ?thesis by (simp add: runeError_def)
qed

text \<open>
  The amended statement of C9 at the key items \<^verbatim>\<open>k\<close>, escaped \<^verbatim>\<open>=\<close>, escaped backslash and
  \<^verbatim>\<open>U+00E9\<close>, with separator \<^verbatim>\<open>:=\<close> and a value that holds a backslash and separator
  characters, and at the byte \<^verbatim>\<open>FF\<close>.
\<close>

theorem parseKeyVal_escape_roundtrip_witness:
  "[(False, ''k''), (True, ''=''), (True, [backslash]), (False, [CHR 0xC3, CHR 0xA9])] \<noteq> []
   \<and> list_all itemOk [(False, ''k''), (True, ''=''), (True, [backslash]), (False, [CHR 0xC3, CHR 0xA9])]
   \<and> List.find (\<lambda>x. prefix x ('':='' @ [backslash, CHR ''@'', CHR ''='']) ) separators = Some '':=''
   \<and> wellFormed [CHR 0xC3, CHR 0xA9]
   \<and> parseKeyVal ([CHR ''k'', backslash, CHR ''='', backslash, backslash, CHR 0xC3, CHR 0xA9]
                    @ '':='' @ [backslash, CHR ''@'', CHR ''=''])
       = Inr \<lparr>key = [CHR ''k'', CHR ''='', backslash, CHR 0xC3, CHR 0xA9], sep = '':='',
               val = [backslash, CHR ''@'', CHR ''='']\<rparr>
   \<and> parseLoop ''k'' False (backslash # [CHR 0xC3, CHR 0xA9] @ ''=v'')
       = parseLoop (''k'' @ [CHR 0xC3, CHR 0xA9]) False ''=v''
   \<and> utf8Width (CHR 0xFF # ''=v'') = 0
   \<and> parseLoop ''k'' False (backslash # CHR 0xFF # ''=v'') = parseLoop (''k'' @ runeError) False ''=v''
   \<and> parseLoop ''k'' False (CHR 0xFF # ''=v'') = parseLoop (''k'' @ runeError) False ''=v''
   \<and> [CHR 0xC3, CHR 0xA9] \<noteq> [backslash] \<and> \<not> sepStart (hd [CHR 0xC3, CHR 0xA9])
   \<and> parseLoop ''k'' False ([CHR 0xC3, CHR 0xA9] @ ''=v'')
       = parseLoop (''k'' @ [CHR 0xC3, CHR 0xA9]) False ''=v''
   \<and> parseLoop ''k'' False ('':='' @ [backslash, CHR ''@'', CHR ''=''])
       = Inr \<lparr>key = ''k'', sep = '':='', val = [backslash, CHR ''@'', CHR ''='']\<rparr>
   \<and> [CHR 0xFF, CHR ''=''] \<noteq> []
   \<and> (utf8Width [CHR 0xFF, CHR ''=''] = 0
        \<or> (\<exists>ch rest. [CHR 0xFF, CHR ''=''] = ch @ rest \<and> wellFormed ch))"
proof -
  let ?items = "[(False, ''k''), (True, ''=''), (True, [backslash]), (False, [CHR 0xC3, CHR 0xA9])]"
  have wf: "wellFormed [CHR 0xC3, CHR 0xA9]" "wellFormed ''k''" "wellFormed ''=''" "wellFormed [backslash]"
    by (simp_all add: wellFormed_def utf8Width_def leadByte_def inRange_def backslash_def)
  have ok: "list_all itemOk ?items"
    using wf by (simp add: itemOk_def sepStart_def) (simp add: backslash_def)
  have f: "List.find (\<lambda>x. prefix x ('':='' @ [backslash, CHR ''@'', CHR ''=''])) separators = Some '':=''"
    by (simp add: separators_def backslash_def)
  have ne: "?items \<noteq> []" by simp
  note T = parseKeyVal_escape_roundtrip
  note a = conjunct1[OF T]
  note b = conjunct1[OF conjunct2[OF T]]
  note c = conjunct1[OF conjunct2[OF conjunct2[OF T]]]
  note pl = conjunct1[OF conjunct2[OF conjunct2[OF conjunct2[OF T]]]]
  note sp = conjunct1[OF conjunct2[OF conjunct2[OF conjunct2[OF conjunct2[OF T]]]]]
  note d = conjunct1[OF conjunct2[OF conjunct2[OF conjunct2[OF conjunct2[OF conjunct2[OF T]]]]]]
  have nbs: "[CHR 0xC3, CHR 0xA9] \<noteq> [backslash]" by simp
  have nss: "\<not> sepStart (hd [CHR 0xC3, CHR 0xA9])" by (simp add: sepStart_def)
  note pl1 = pl[rule_format, OF conjI[OF wf(1) conjI[OF nbs nss]], of "''k''" "''=v''"]
  have kne: "''k'' \<noteq> []" by simp
  note sp1 = sp[rule_format, OF conjI[OF kne f]]
  from a[rule_format, of ?items "'':=''" "[backslash, CHR ''@'', CHR ''='']", OF conjI[OF ne conjI[OF ok f]]]
  have "parseKeyVal (concat (map renderItem ?items) @ '':='' @ [backslash, CHR ''@'', CHR ''=''])
        = Inr \<lparr>key = concat (map snd ?items), sep = '':='', val = [backslash, CHR ''@'', CHR ''='']\<rparr>"
    .
  then have r: "parseKeyVal ([CHR ''k'', backslash, CHR ''='', backslash, backslash, CHR 0xC3, CHR 0xA9]
                    @ '':='' @ [backslash, CHR ''@'', CHR ''=''])
       = Inr \<lparr>key = [CHR ''k'', CHR ''='', backslash, CHR 0xC3, CHR 0xA9], sep = '':='',
               val = [backslash, CHR ''@'', CHR ''='']\<rparr>"
    by (simp add: renderItem_def)
  note b1 = b[rule_format, OF wf(1), of "''k''" "''=v''"]
  have w: "utf8Width (CHR 0xFF # ''=v'') = 0" by (simp add: utf8Width_def leadByte_def)
  note c1 = c[rule_format, OF w, of "''k''"]
  have n: "[CHR 0xFF, CHR ''=''] \<noteq> []" by simp
  note d1 = d[rule_format, OF n]
  show ?thesis
    by (rule conjI[OF ne conjI[OF ok conjI[OF f conjI[OF wf(1) conjI[OF r conjI[OF b1
          conjI[OF w conjI[OF conjunct1[OF c1] conjI[OF conjunct2[OF c1] conjI[OF nbs
          conjI[OF nss conjI[OF pl1 conjI[OF sp1 conjI[OF n d1]]]]]]]]]]]]]])
qed
section \<open>The request assembler: properties\<close>

lemma sepFuncs_simps:
  "sepFuncs '':'' = Some httpHeader"
  "sepFuncs ''=='' = Some urlParam"
  "sepFuncs ''='' = Some dataString"
  "sepFuncs ''=@'' = Some dataStringFile"
  "sepFuncs '':='' = Some jsonOther"
  "sepFuncs '':=@'' = Some jsonOtherFile"
  by (simp_all add: sepFuncs_def)

lemma sepFuncs_cases:
  "sepFuncs sp = None \<or> (sp = '':'' \<and> sepFuncs sp = Some httpHeader)
     \<or> (sp = ''=='' \<and> sepFuncs sp = Some urlParam)
     \<or> (sp = ''='' \<and> sepFuncs sp = Some dataString)
     \<or> (sp = ''=@'' \<and> sepFuncs sp = Some dataStringFile)
     \<or> (sp = '':='' \<and> sepFuncs sp = Some jsonOther)
     \<or> (sp = '':=@'' \<and> sepFuncs sp = Some jsonOtherFile)"
  by (simp add: sepFuncs_def)

lemma sepFuncs_None: "sepFuncs sp = None \<Longrightarrow> \<not> isBodySep sp \<and> \<not> isFileSep sp"
  by (auto simp: sepFuncs_def isBodySep_def isFileSep_def split: if_splits)

lemma httpHeader_step: "httpHeader l p k v req w = (Inr req', w') \<Longrightarrow> bodyStep p req req' \<and> w' = w"
  by (auto simp: httpHeader_def bodyStep_def)

lemma urlParam_step: "urlParam l p k v req w = (Inr req', w') \<Longrightarrow> bodyStep p req req' \<and> w' = w"
  by (auto simp: urlParam_def bodyStep_def)

lemma dataString_step: "dataString l p k v req w = (Inr req', w') \<Longrightarrow> bodyStep p req req' \<and> w' = w
    \<and> (\<not> Mapping.is_empty (reqForm req') \<or> \<not> Mapping.is_empty (jsonObj req'))"
  by (auto simp: dataString_def bodyStep_def valuesAdd_def split: if_splits)

lemma jsonOther_step: "jsonOther l p k v req w = (Inr req', w') \<Longrightarrow> bodyStep p req req' \<and> w' = w
    \<and> (\<not> Mapping.is_empty (reqForm req') \<or> \<not> Mapping.is_empty (jsonObj req'))"
  by (auto simp: jsonOther_def bodyStep_def split: if_splits option.splits)

lemma dataStringFile_step: "dataStringFile l p k v req w = (r, w') \<Longrightarrow> reads w' = reads w @ [v]
    \<and> (\<forall>req'. r = Inr req' \<longrightarrow> bodyStep p req req' 
          \<and> (\<not> Mapping.is_empty (reqForm req') \<or> \<not> Mapping.is_empty (jsonObj req')))"
  by (auto simp: dataStringFile_def readFile_def dataString_def bodyStep_def valuesAdd_def
        split: option.splits if_splits)

lemma jsonOtherFile_step: "jsonOtherFile l p k v req w = (r, w') \<Longrightarrow> reads w' = reads w @ [v]
    \<and> (\<forall>req'. r = Inr req' \<longrightarrow> bodyStep p req req' 
          \<and> (\<not> Mapping.is_empty (reqForm req') \<or> \<not> Mapping.is_empty (jsonObj req')))"
  by (auto simp: jsonOtherFile_def readFile_def jsonOther_def bodyStep_def
        split: option.splits if_splits)

lemma pure_reads:
  "httpHeader l p k v req w = (r, w') \<Longrightarrow> w' = w"
  "urlParam l p k v req w = (r, w') \<Longrightarrow> w' = w"
  "dataString l p k v req w = (r, w') \<Longrightarrow> w' = w"
  "jsonOther l p k v req w = (r, w') \<Longrightarrow> w' = w"
  by (auto simp: httpHeader_def urlParam_def dataString_def jsonOther_def split: if_splits option.splits)

lemma addKeyVal_reads:
  assumes "addKeyVal l p kv req w = (r, w')"
  shows "reads w' = reads w @ (if isFileSep (sep kv) then [val kv] else [])"
  using sepFuncs_cases[of "sep kv"]
proof (elim disjE conjE)
  assume "sepFuncs (sep kv) = None"
  with assms sepFuncs_None[OF this] show ?thesis by (simp add: addKeyVal_def)
next
  assume "sep kv = '':''" "sepFuncs (sep kv) = Some httpHeader"
  with assms pure_reads(1)[of l p "key kv" "val kv" req w r w'] show ?thesis
    by (simp add: addKeyVal_def isFileSep_def)
next
  assume "sep kv = ''==''" "sepFuncs (sep kv) = Some urlParam"
  with assms pure_reads(2)[of l p "key kv" "val kv" req w r w'] show ?thesis
    by (simp add: addKeyVal_def isFileSep_def)
next
  assume "sep kv = ''=''" "sepFuncs (sep kv) = Some dataString"
  with assms pure_reads(3)[of l p "key kv" "val kv" req w r w'] show ?thesis
    by (simp add: addKeyVal_def isFileSep_def)
next
  assume "sep kv = ''=@''" "sepFuncs (sep kv) = Some dataStringFile"
  with assms dataStringFile_step[of l p "key kv" "val kv" req w r w'] show ?thesis
    by (simp add: addKeyVal_def isFileSep_def)
next
  assume "sep kv = '':=''" "sepFuncs (sep kv) = Some jsonOther"
  with assms pure_reads(4)[of l p "key kv" "val kv" req w r w'] show ?thesis
    by (simp add: addKeyVal_def isFileSep_def)
next
  assume "sep kv = '':=@''" "sepFuncs (sep kv) = Some jsonOtherFile"
  with assms jsonOtherFile_step[of l p "key kv" "val kv" req w r w'] show ?thesis
    by (simp add: addKeyVal_def isFileSep_def)
qed

lemma addKeyVal_step:
  assumes "addKeyVal l p kv req w = (Inr req', w')"
  shows "bodyStep p req req'"
    and "isBodySep (sep kv) \<Longrightarrow> \<not> Mapping.is_empty (reqForm req') \<or> \<not> Mapping.is_empty (jsonObj req')"
proof -
  have "bodyStep p req req' \<and> (isBodySep (sep kv) \<longrightarrow>
          \<not> Mapping.is_empty (reqForm req') \<or> \<not> Mapping.is_empty (jsonObj req'))"
    using sepFuncs_cases[of "sep kv"]
  proof (elim disjE conjE)
    assume "sepFuncs (sep kv) = None"
    with assms show ?thesis by (simp add: addKeyVal_def)
  next
    assume "sep kv = '':''" "sepFuncs (sep kv) = Some httpHeader"
    with assms httpHeader_step[of l p "key kv" "val kv" req w req' w'] show ?thesis
      by (simp add: addKeyVal_def isBodySep_def)
  next
    assume "sep kv = ''==''" "sepFuncs (sep kv) = Some urlParam"
    with assms urlParam_step[of l p "key kv" "val kv" req w req' w'] show ?thesis
      by (simp add: addKeyVal_def isBodySep_def)
  next
    assume "sep kv = ''=''" "sepFuncs (sep kv) = Some dataString"
    with assms dataString_step[of l p "key kv" "val kv" req w req' w'] show ?thesis
      by (simp add: addKeyVal_def)
  next
    assume "sep kv = ''=@''" "sepFuncs (sep kv) = Some dataStringFile"
    with assms dataStringFile_step[of l p "key kv" "val kv" req w "Inr req'" w'] show ?thesis
      by (simp add: addKeyVal_def)
  next
    assume "sep kv = '':=''" "sepFuncs (sep kv) = Some jsonOther"
    with assms jsonOther_step[of l p "key kv" "val kv" req w req' w'] show ?thesis
      by (simp add: addKeyVal_def)
  next
    assume "sep kv = '':=@''" "sepFuncs (sep kv) = Some jsonOtherFile"
    with assms jsonOtherFile_step[of l p "key kv" "val kv" req w "Inr req'" w'] show ?thesis
      by (simp add: addKeyVal_def)
  qed
  then show "bodyStep p req req'"
    and "isBodySep (sep kv) \<Longrightarrow> \<not> Mapping.is_empty (reqForm req') \<or> \<not> Mapping.is_empty (jsonObj req')"
    by simp_all
qed

lemma bodyStep_mono:
  assumes "bodyStep p req req'"
  shows "\<not> Mapping.is_empty (reqForm req) \<Longrightarrow> \<not> Mapping.is_empty (reqForm req')"
    and "\<not> Mapping.is_empty (jsonObj req) \<Longrightarrow> \<not> Mapping.is_empty (jsonObj req')"
    and "json p \<Longrightarrow> Mapping.is_empty (reqForm req) \<Longrightarrow> Mapping.is_empty (reqForm req')"
    and "\<not> json p \<Longrightarrow> Mapping.is_empty (jsonObj req) \<Longrightarrow> Mapping.is_empty (jsonObj req')"
  using assms by (cases "json p"; auto simp: bodyStep_def)+

lemma addKeyVals_inv:
  assumes "addKeyVals l p kvs req w = (Inr req', w')"
  shows "(json p \<longrightarrow> Mapping.is_empty (reqForm req) \<longrightarrow> Mapping.is_empty (reqForm req'))
       \<and> (\<not> json p \<longrightarrow> Mapping.is_empty (jsonObj req) \<longrightarrow> Mapping.is_empty (jsonObj req'))
       \<and> (\<not> Mapping.is_empty (reqForm req) \<longrightarrow> \<not> Mapping.is_empty (reqForm req'))
       \<and> (\<not> Mapping.is_empty (jsonObj req) \<longrightarrow> \<not> Mapping.is_empty (jsonObj req'))
       \<and> ((\<exists>kv\<in>set kvs. isBodySep (sep kv)) \<longrightarrow>
             \<not> Mapping.is_empty (reqForm req') \<or> \<not> Mapping.is_empty (jsonObj req'))"
  using assms
proof (induction kvs arbitrary: req w)
  case Nil
  then show ?case by simp
next
  case (Cons kv kvs)
  from Cons.prems obtain req1 w1 where
    s1: "addKeyVal l p kv req w = (Inr req1, w1)" and s2: "addKeyVals l p kvs req1 w1 = (Inr req', w')"
    by (auto split: prod.splits sum.splits)
  note st = addKeyVal_step[OF s1]
  note m = bodyStep_mono[OF st(1)]
  note ih = Cons.IH[OF s2]
  show ?case
  proof (intro conjI impI)
    assume "json p" "Mapping.is_empty (reqForm req)"
    with m(3) ih show "Mapping.is_empty (reqForm req')" by simp
  next
    assume "\<not> json p" "Mapping.is_empty (jsonObj req)"
    with m(4) ih show "Mapping.is_empty (jsonObj req')" by simp
  next
    assume "\<not> Mapping.is_empty (reqForm req)"
    with m(1) ih show "\<not> Mapping.is_empty (reqForm req')" by simp
  next
    assume "\<not> Mapping.is_empty (jsonObj req)"
    with m(2) ih show "\<not> Mapping.is_empty (jsonObj req')" by simp
  next
    assume "\<exists>kv\<in>set (kv # kvs). isBodySep (sep kv)"
    then consider "isBodySep (sep kv)" | "\<exists>kv\<in>set kvs. isBodySep (sep kv)" by auto
    then show "\<not> Mapping.is_empty (reqForm req') \<or> \<not> Mapping.is_empty (jsonObj req')"
    proof cases
      case 1
      from st(2)[OF 1] ih show ?thesis by auto
    next
      case 2
      with ih show ?thesis by simp
    qed
  qed
qed

lemma addKeyVals_reads:
  "addKeyVals l p kvs req w = (Inr req', w') \<Longrightarrow>
     reads w' = reads w @ map val (filter (\<lambda>kv. isFileSep (sep kv)) kvs)"
proof (induction kvs arbitrary: req w)
  case Nil
  then show ?case by simp
next
  case (Cons kv kvs)
  from Cons.prems obtain req1 w1 where
    s1: "addKeyVal l p kv req w = (Inr req1, w1)" and s2: "addKeyVals l p kvs req1 w1 = (Inr req', w')"
    by (auto split: prod.splits sum.splits)
  from addKeyVal_reads[OF s1] Cons.IH[OF s2] show ?case by simp
qed

subsection \<open>The two body maps\<close>

lemma emptyRequest_maps:
  "Mapping.is_empty (reqForm (emptyRequest p))" "Mapping.is_empty (jsonObj (emptyRequest p))"
  by (simp_all add: emptyRequest_def)

lemma finish_maps:
  "reqForm (setJsonType p (setAuth l p req)) = reqForm req"
  "jsonObj (setJsonType p (setAuth l p req)) = jsonObj req"
  by (simp_all add: setJsonType_def setAuth_def)

lemma newRequest_Inr:
  assumes "newRequest l f args w = (Inr (req, p), w')"
  shows "\<exists>req0. parseArgs l f args = Inr p
           \<and> addKeyVals l p (keyVals p) (emptyRequest p) w = (Inr req0, w')
           \<and> req = setJsonType p (setAuth l p req0)"
proof (cases "parseArgs l f args")
  case (Inl e)
  with assms show ?thesis by (simp add: newRequest_def)
next
  case (Inr p0)
  obtain r w1 where a: "addKeyVals l p0 (keyVals p0) (emptyRequest p0) w = (r, w1)"
    by (cases "addKeyVals l p0 (keyVals p0) (emptyRequest p0) w")
  show ?thesis
  proof (cases r)
    case (Inl e)
    with assms Inr a show ?thesis by (simp add: newRequest_def)
  next
    case r: (Inr req0)
    with assms Inr a have "p0 = p" "w1 = w'" "req = setJsonType p0 (setAuth l p0 req0)"
      by (auto simp: newRequest_def split: if_splits)
    with Inr a r show ?thesis by simp
  qed
qed

text \<open>
  Claim C8. Starting from the empty request of \<^verbatim>\<open>newRequest\<close>, after any sequence of
  token applications under one setting of JSON mode (every intermediate state is the
  state after such a sequence, a prefix of the tokens) the form map is empty when JSON
  mode is on and the JSON object is empty when it is off, so the two are never both
  non-empty; the same holds for the request that \<^verbatim>\<open>newRequest\<close> returns, which is the one
  that is finalized.
\<close>

theorem form_json_never_both:
  "(\<forall>l p kvs w req w'.
      addKeyVals l p kvs (emptyRequest p) w = (Inr req, w') \<longrightarrow>
        (if json p then Mapping.is_empty (reqForm req) else Mapping.is_empty (jsonObj req))
        \<and> (Mapping.is_empty (reqForm req) \<or> Mapping.is_empty (jsonObj req)))
   \<and> (\<forall>l f args w req p w'.
      newRequest l f args w = (Inr (req, p), w') \<longrightarrow>
        Mapping.is_empty (reqForm req) \<or> Mapping.is_empty (jsonObj req))"
proof -
  have A: "(if json p then Mapping.is_empty (reqForm req) else Mapping.is_empty (jsonObj req))
        \<and> (Mapping.is_empty (reqForm req) \<or> Mapping.is_empty (jsonObj req))"
    if "addKeyVals l p kvs (emptyRequest p) w = (Inr req, w')" for l p kvs w req w'
    using addKeyVals_inv[OF that] emptyRequest_maps[of p] by (cases "json p") simp_all
  have B: "Mapping.is_empty (reqForm req) \<or> Mapping.is_empty (jsonObj req)"
    if "newRequest l f args w = (Inr (req, p), w')" for l f args w req p w'
  proof -
    from newRequest_Inr[OF that] obtain req0 where
      r: "addKeyVals l p (keyVals p) (emptyRequest p) w = (Inr req0, w')"
        "req = setJsonType p (setAuth l p req0)" by (elim exE conjE)
    from A[OF r(1)] show ?thesis by (simp add: r(2) finish_maps)
  qed
  show ?thesis
  proof (intro conjI allI impI)
    fix l p kvs w req w'
    assume "addKeyVals l p kvs (emptyRequest p) w = (Inr req, w')"
    from A[OF this]
    show "if json p then Mapping.is_empty (reqForm req) else Mapping.is_empty (jsonObj req)"
      and "Mapping.is_empty (reqForm req) \<or> Mapping.is_empty (jsonObj req)" by simp_all
  next
    fix l f args w req p w'
    assume "newRequest l f args w = (Inr (req, p), w')"
    then show "Mapping.is_empty (reqForm req) \<or> Mapping.is_empty (jsonObj req)" by (rule B)
  qed
qed

lemma canon_examples:
  "canonicalMIMEHeaderKey ''h1'' = ''H1''"
  "canonicalMIMEHeaderKey ''Content-Type'' = ''Content-Type''"
  "canonicalMIMEHeaderKey ''content-type'' = ''Content-Type''"
  "canonicalMIMEHeaderKey ''Authorization'' = ''Authorization''"
  by code_simp+

lemma example_tokens:
  "addKeyVals exampleLib jsonParams
     [\<lparr>key = ''h1'', sep = '':'', val = ''hval1''\<rparr>, \<lparr>key = ''j1'', sep = ''='', val = ''123''\<rparr>,
      \<lparr>key = ''j2'', sep = '':='', val = ''123''\<rparr>] (emptyRequest jsonParams) exampleWorld
   = (Inr \<lparr>reqUrl = fooURL, reqMethod = ''POST'',
           header = Mapping.update ''H1'' [''hval1''] Mapping.empty,
           urlValues = Mapping.empty, reqForm = Mapping.empty,
           jsonObj = Mapping.update ''j2'' (RawJson ''123'')
                       (Mapping.update ''j1'' (StringValue ''123'') Mapping.empty)\<rparr>, exampleWorld)"
  by (simp add: addKeyVal_def sepFuncs_simps httpHeader_def dataString_def jsonOther_def
        jsonParams_def formParams_def emptyRequest_def exampleLib_def headerAdd_def valuesAdd_def
        getAll_def canon_examples)


lemmas parse_evals = parseKeyVal_def runeString_def runeWidth_def utf8Width_def backslash_def
  separators_def

lemmas apply_evals = newRequest_def addKeyVal_def sepFuncs_simps httpHeader_def urlParam_def
  dataString_def dataStringFile_def jsonOther_def jsonOtherFile_def readFile_def emptyRequest_def
  headerAdd_def headerSet_def headerGet_def valuesAdd_def getAll_def setAuth_def setJsonType_def

lemma isDataSendingSep_examples:
  "isDataSendingSep ''@''" "isDataSendingSep ''=''" "isDataSendingSep '':=''"
  "isDataSendingSep ''=@''" "isDataSendingSep '':=@''"
  "\<not> isDataSendingSep '':''" "\<not> isDataSendingSep ''==''"
  by (simp_all add: isDataSendingSep_def trimSuffix_def suffix_def)

lemma ex_parseArgs:
  "parseArgs exampleLib noFlags [''foo.com'', ''k@v'']
     = Inr (formParams\<lparr>keyVals := [\<lparr>key = ''k'', sep = ''@'', val = ''v''\<rparr>]\<rparr>)"
  by (simp add: parseArgs_def isMethod_def localhostURL_def inRange_def parse_evals
        isDataSendingSep_examples exampleLib_def noFlags_def formParams_def fooURL_def)


lemma pair_of_Inr:
  "\<not> isl (fst X) \<Longrightarrow> X = (Inr (projr (fst X)), snd X)"
  by (cases X; cases "fst X") auto

text \<open>
  The statement of C8 at the tokens \<^verbatim>\<open>h1:hval1 j1=123 j2:=123\<close> in JSON mode, and at the
  command line \<^verbatim>\<open>foo.com j1=123\<close>.
\<close>

theorem form_json_never_both_witness:
  "addKeyVals exampleLib jsonParams
     [\<lparr>key = ''h1'', sep = '':'', val = ''hval1''\<rparr>, \<lparr>key = ''j1'', sep = ''='', val = ''123''\<rparr>,
      \<lparr>key = ''j2'', sep = '':='', val = ''123''\<rparr>] (emptyRequest jsonParams) exampleWorld
   = (Inr \<lparr>reqUrl = fooURL, reqMethod = ''POST'',
           header = Mapping.update ''H1'' [''hval1''] Mapping.empty,
           urlValues = Mapping.empty, reqForm = Mapping.empty,
           jsonObj = Mapping.update ''j2'' (RawJson ''123'')
                       (Mapping.update ''j1'' (StringValue ''123'') Mapping.empty)\<rparr>, exampleWorld)
   \<and> json jsonParams
   \<and> Mapping.is_empty (Mapping.empty :: Values)
   \<and> \<not> Mapping.is_empty (Mapping.update ''j2'' (RawJson ''123'')
                       (Mapping.update ''j1'' (StringValue ''123'') Mapping.empty))
   \<and> \<not> isl (fst (newRequest exampleLib noFlags [''foo.com'', ''j1=123''] exampleWorld))
   \<and> (Mapping.is_empty (reqForm (fst (projr (fst (newRequest exampleLib noFlags [''foo.com'', ''j1=123''] exampleWorld)))))
        \<or> Mapping.is_empty (jsonObj (fst (projr (fst (newRequest exampleLib noFlags [''foo.com'', ''j1=123''] exampleWorld))))))"
proof -
  let ?X = "newRequest exampleLib noFlags [''foo.com'', ''j1=123''] exampleWorld"
  have n: "\<not> isl (fst ?X)"
    by (simp add: apply_evals parseArgs_def isMethod_def localhostURL_def inRange_def parse_evals
          isDataSendingSep_examples exampleLib_def noFlags_def)
  from pair_of_Inr[OF n] have e: "?X = (Inr (fst (projr (fst ?X)), snd (projr (fst ?X))), snd ?X)"
    by simp
  from form_json_never_both have
    B: "\<forall>l f args w req p w'.
      newRequest l f args w = (Inr (req, p), w') \<longrightarrow>
        Mapping.is_empty (reqForm req) \<or> Mapping.is_empty (jsonObj req)"
    by (rule conjunct2)
  note b = B[rule_format, OF e]
  have j: "json jsonParams" by (simp add: jsonParams_def)
  from form_json_never_both have
    A: "\<forall>l p kvs w req w'.
      addKeyVals l p kvs (emptyRequest p) w = (Inr req, w') \<longrightarrow>
        (if json p then Mapping.is_empty (reqForm req) else Mapping.is_empty (jsonObj req))
        \<and> (Mapping.is_empty (reqForm req) \<or> Mapping.is_empty (jsonObj req))"
    by (rule conjunct1)
  note a = A[rule_format, OF example_tokens]
  from a j have "Mapping.is_empty (Mapping.empty :: Values)" by simp
  with example_tokens j n b show ?thesis by simp
qed

subsection \<open>The standard-input check\<close>

lemma newRequest_conflict:
  assumes "parseArgs l f args = Inr p" "useStdin p"
    and "addKeyVals l p (keyVals p) (emptyRequest p) w = (Inr req, w')"
    and "\<exists>kv\<in>set (keyVals p). isBodySep (sep kv)"
  shows "newRequest l f args w = (Inl StdinConflict, w')"
    and "reads w' = reads w @ map val (filter (\<lambda>kv. isFileSep (sep kv)) (keyVals p))"
proof -
  from addKeyVals_inv[OF assms(3)] assms(4)
  have "\<not> Mapping.is_empty (reqForm req) \<or> \<not> Mapping.is_empty (jsonObj req)" by simp
  with assms(1,2,3) show "newRequest l f args w = (Inl StdinConflict, w')"
    by (simp add: newRequest_def)
  from addKeyVals_reads[OF assms(3)]
  show "reads w' = reads w @ map val (filter (\<lambda>kv. isFileSep (sep kv)) (keyVals p))" .
qed

lemma newRequest_token_error:
  assumes "parseArgs l f args = Inr p"
    and "addKeyVals l p (keyVals p) (emptyRequest p) w = (Inl e, w')"
  shows "newRequest l f args w = (Inl e, w')"
  using assms by (simp add: newRequest_def)

text \<open>
  Claim C7, amended. When reading the body from standard input is requested, every
  token applies successfully and some token has one of the separators \<^verbatim>\<open>=\<close>, \<^verbatim>\<open>:=\<close>,
  \<^verbatim>\<open>=@\<close>, \<^verbatim>\<open>:=@\<close>, \<^verbatim>\<open>newRequest\<close> fails with the configuration error; the check comes
  after all tokens have been applied, so the files of all \<^verbatim>\<open>=@\<close> and \<^verbatim>\<open>:=@\<close> tokens have
  been read by then. When a token fails to apply, \<^verbatim>\<open>newRequest\<close> fails with the error of
  that token.
\<close>

theorem stdin_conflict_after_tokens:
  "(\<forall>l f args p w req w'.
      parseArgs l f args = Inr p \<and> useStdin p
      \<and> addKeyVals l p (keyVals p) (emptyRequest p) w = (Inr req, w')
      \<and> (\<exists>kv\<in>set (keyVals p). isBodySep (sep kv)) \<longrightarrow>
        newRequest l f args w = (Inl StdinConflict, w')
        \<and> reads w' = reads w @ map val (filter (\<lambda>kv. isFileSep (sep kv)) (keyVals p)))
   \<and> (\<forall>l f args p w e w'.
      parseArgs l f args = Inr p
      \<and> addKeyVals l p (keyVals p) (emptyRequest p) w = (Inl e, w') \<longrightarrow>
        newRequest l f args w = (Inl e, w'))"
proof (intro conjI allI impI)
  fix l f args p w req w'
  assume a: "parseArgs l f args = Inr p \<and> useStdin p
      \<and> addKeyVals l p (keyVals p) (emptyRequest p) w = (Inr req, w')
      \<and> (\<exists>kv\<in>set (keyVals p). isBodySep (sep kv))"
  note c = newRequest_conflict[OF conjunct1[OF a] conjunct1[OF conjunct2[OF a]]
      conjunct1[OF conjunct2[OF conjunct2[OF a]]] conjunct2[OF conjunct2[OF conjunct2[OF a]]]]
  show "newRequest l f args w = (Inl StdinConflict, w')" by (rule c(1))
  show "reads w' = reads w @ map val (filter (\<lambda>kv. isFileSep (sep kv)) (keyVals p))" by (rule c(2))
next
  fix l f args p w e w'
  assume a: "parseArgs l f args = Inr p
      \<and> addKeyVals l p (keyVals p) (emptyRequest p) w = (Inl e, w')"
  show "newRequest l f args w = (Inl e, w')"
    by (rule newRequest_token_error[OF conjunct1[OF a] conjunct2[OF a]])
qed

lemma ex_stdin_parse:
  "parseArgs exampleLib stdinFlags [''foo.com'', ''a=@/f'']
     = Inr (formParams\<lparr>useStdin := True, keyVals := [\<lparr>key = ''a'', sep = ''=@'', val = ''/f''\<rparr>]\<rparr>)"
  "parseArgs exampleLib stdinFlags [''foo.com'', ''a=1'', ''b=@/g'']
     = Inr (formParams\<lparr>useStdin := True,
              keyVals := [\<lparr>key = ''a'', sep = ''='', val = ''1''\<rparr>, \<lparr>key = ''b'', sep = ''=@'', val = ''/g''\<rparr>]\<rparr>)"
  by (simp_all add: parseArgs_def isMethod_def localhostURL_def inRange_def parse_evals
        isDataSendingSep_examples exampleLib_def noFlags_def stdinFlags_def formParams_def fooURL_def)

lemma ex_stdin_apply:
  "addKeyVals exampleLib
     (formParams\<lparr>useStdin := True, keyVals := [\<lparr>key = ''a'', sep = ''=@'', val = ''/f''\<rparr>]\<rparr>)
     [\<lparr>key = ''a'', sep = ''=@'', val = ''/f''\<rparr>]
     (emptyRequest (formParams\<lparr>useStdin := True, keyVals := [\<lparr>key = ''a'', sep = ''=@'', val = ''/f''\<rparr>]\<rparr>))
     exampleWorld
   = (Inr \<lparr>reqUrl = fooURL, reqMethod = ''POST'', header = Mapping.empty,
           urlValues = Mapping.empty, reqForm = Mapping.update ''a'' [''x''] Mapping.empty,
           jsonObj = Mapping.empty\<rparr>, exampleWorld\<lparr>reads := [''/f'']\<rparr>)"
  by (simp add: addKeyVal_def sepFuncs_simps dataStringFile_def dataString_def readFile_def
        emptyRequest_def formParams_def exampleWorld_def valuesAdd_def getAll_def)

lemma ex_stdin_apply_missing:
  "addKeyVals exampleLib
     (formParams\<lparr>useStdin := True,
        keyVals := [\<lparr>key = ''a'', sep = ''='', val = ''1''\<rparr>, \<lparr>key = ''b'', sep = ''=@'', val = ''/g''\<rparr>]\<rparr>)
     [\<lparr>key = ''a'', sep = ''='', val = ''1''\<rparr>, \<lparr>key = ''b'', sep = ''=@'', val = ''/g''\<rparr>]
     (emptyRequest (formParams\<lparr>useStdin := True,
        keyVals := [\<lparr>key = ''a'', sep = ''='', val = ''1''\<rparr>, \<lparr>key = ''b'', sep = ''=@'', val = ''/g''\<rparr>]\<rparr>))
     exampleWorld
   = (Inl (FileReadError ''/g''), exampleWorld\<lparr>reads := [''/g'']\<rparr>)"
  by (simp add: addKeyVal_def sepFuncs_simps dataStringFile_def dataString_def readFile_def
        emptyRequest_def formParams_def exampleWorld_def valuesAdd_def getAll_def)

text \<open>
  Claim C7 as stated fails. With \<^verbatim>\<open>--stdin foo.com a=@/f\<close> the request is rejected with
  the configuration error, but only after the file \<^verbatim>\<open>/f\<close> has been read. With
  \<^verbatim>\<open>--stdin foo.com a=1 b=@/g\<close>, where \<^verbatim>\<open>/g\<close> cannot be read, the error is the read error
  of \<^verbatim>\<open>/g\<close> and not the configuration error, although \<^verbatim>\<open>a=1\<close> populates the form.
\<close>

theorem stdin_conflict_counterexample:
  "flagStdin stdinFlags
   \<and> reads exampleWorld = []
   \<and> newRequest exampleLib stdinFlags [''foo.com'', ''a=@/f''] exampleWorld
       = (Inl StdinConflict, exampleWorld\<lparr>reads := [''/f'']\<rparr>)
   \<and> reads (exampleWorld\<lparr>reads := [''/f'']\<rparr>) \<noteq> []
   \<and> newRequest exampleLib stdinFlags [''foo.com'', ''a=1'', ''b=@/g''] exampleWorld
       = (Inl (FileReadError ''/g''), exampleWorld\<lparr>reads := [''/g'']\<rparr>)
   \<and> FileReadError ''/g'' \<noteq> StdinConflict"
  using ex_stdin_parse ex_stdin_apply ex_stdin_apply_missing
  by (simp add: newRequest_def stdinFlags_def exampleWorld_def formParams_def)

text \<open>The amended statement of C7 at the two command lines of the counterexample.\<close>

theorem stdin_conflict_after_tokens_witness:
  "parseArgs exampleLib stdinFlags [''foo.com'', ''a=@/f'']
     = Inr (formParams\<lparr>useStdin := True, keyVals := [\<lparr>key = ''a'', sep = ''=@'', val = ''/f''\<rparr>]\<rparr>)
   \<and> useStdin (formParams\<lparr>useStdin := True, keyVals := [\<lparr>key = ''a'', sep = ''=@'', val = ''/f''\<rparr>]\<rparr>)
   \<and> isBodySep ''=@''
   \<and> newRequest exampleLib stdinFlags [''foo.com'', ''a=@/f''] exampleWorld
       = (Inl StdinConflict, exampleWorld\<lparr>reads := [''/f'']\<rparr>)
   \<and> reads (exampleWorld\<lparr>reads := [''/f'']\<rparr>) = reads exampleWorld @ [''/f'']
   \<and> parseArgs exampleLib stdinFlags [''foo.com'', ''a=1'', ''b=@/g'']
     = Inr (formParams\<lparr>useStdin := True,
              keyVals := [\<lparr>key = ''a'', sep = ''='', val = ''1''\<rparr>, \<lparr>key = ''b'', sep = ''=@'', val = ''/g''\<rparr>]\<rparr>)
   \<and> newRequest exampleLib stdinFlags [''foo.com'', ''a=1'', ''b=@/g''] exampleWorld
       = (Inl (FileReadError ''/g''), exampleWorld\<lparr>reads := [''/g'']\<rparr>)"
proof -
  let ?p = "formParams\<lparr>useStdin := True, keyVals := [\<lparr>key = ''a'', sep = ''=@'', val = ''/f''\<rparr>]\<rparr>"
  have u: "useStdin ?p" by simp
  have b: "isBodySep ''=@''" by (simp add: isBodySep_def)
  have k: "\<exists>kv\<in>set (keyVals ?p). isBodySep (sep kv)" using b by simp
  have ap: "addKeyVals exampleLib ?p (keyVals ?p) (emptyRequest ?p) exampleWorld
     = (Inr \<lparr>reqUrl = fooURL, reqMethod = ''POST'', header = Mapping.empty,
           urlValues = Mapping.empty, reqForm = Mapping.update ''a'' [''x''] Mapping.empty,
           jsonObj = Mapping.empty\<rparr>, exampleWorld\<lparr>reads := [''/f'']\<rparr>)"
    using ex_stdin_apply by simp
  from stdin_conflict_after_tokens have
    A: "\<forall>l f args p w req w'.
      parseArgs l f args = Inr p \<and> useStdin p
      \<and> addKeyVals l p (keyVals p) (emptyRequest p) w = (Inr req, w')
      \<and> (\<exists>kv\<in>set (keyVals p). isBodySep (sep kv)) \<longrightarrow>
        newRequest l f args w = (Inl StdinConflict, w')
        \<and> reads w' = reads w @ map val (filter (\<lambda>kv. isFileSep (sep kv)) (keyVals p))"
    by (rule conjunct1)
  note a = A[rule_format, OF conjI[OF ex_stdin_parse(1) conjI[OF u conjI[OF ap k]]]]
  let ?q = "formParams\<lparr>useStdin := True,
              keyVals := [\<lparr>key = ''a'', sep = ''='', val = ''1''\<rparr>, \<lparr>key = ''b'', sep = ''=@'', val = ''/g''\<rparr>]\<rparr>"
  have aq: "addKeyVals exampleLib ?q (keyVals ?q) (emptyRequest ?q) exampleWorld
     = (Inl (FileReadError ''/g''), exampleWorld\<lparr>reads := [''/g'']\<rparr>)"
    using ex_stdin_apply_missing by simp
  from stdin_conflict_after_tokens have
    B: "\<forall>l f args p w e w'.
      parseArgs l f args = Inr p
      \<and> addKeyVals l p (keyVals p) (emptyRequest p) w = (Inl e, w') \<longrightarrow>
        newRequest l f args w = (Inl e, w')"
    by (rule conjunct2)
  note b2 = B[rule_format, OF conjI[OF ex_stdin_parse(2) aq]]
  have r: "reads (exampleWorld\<lparr>reads := [''/f'']\<rparr>) = reads exampleWorld @ [''/f'']"
    by (simp add: exampleWorld_def)
  show ?thesis
    by (rule conjI[OF ex_stdin_parse(1) conjI[OF u conjI[OF b conjI[OF conjunct1[OF a]
          conjI[OF r conjI[OF ex_stdin_parse(2) b2]]]]]])
qed

subsection \<open>Finalization\<close>

lemma valuesAdd_not_empty: "\<not> Mapping.is_empty (valuesAdd k v m)"
  by (simp add: valuesAdd_def)

lemma getAll_valuesAdd:
  "getAll (valuesAdd k v m) k' = (if k' = k then getAll m k @ [v] else getAll m k')"
  by (simp add: valuesAdd_def getAll_def Mapping.lookup_update')

lemma getAll_empty: "getAll Mapping.empty k = []"
  by (simp add: getAll_def)

lemma getAll_update: "getAll (Mapping.update k v m) k' = (if k = k' then v else getAll m k')"
  by (simp add: getAll_def Mapping.lookup_update')

lemma request_do_URL: "request_do l req stdin = Inr hr \<Longrightarrow> URL hr = mergeQuery req"
  by (auto simp: request_do_def Let_def split: if_splits option.splits stdinStream.splits)

lemma request_do_form:
  "\<not> Mapping.is_empty (reqForm req) \<Longrightarrow>
     request_do l req stdin =
       Inr \<lparr>URL = mergeQuery req, Method = reqMethod req,
            Header = headerSet ''Content-Type'' ''application/x-www-form-urlencoded'' (header req),
            Body = valuesEncode (reqForm req)\<rparr>"
  by (simp add: request_do_def)

lemma mergeQuery_fields:
  "scheme (mergeQuery req) = scheme (reqUrl req)"
  "host (mergeQuery req) = host (reqUrl req)"
  "path (mergeQuery req) = path (reqUrl req)"
  "rawQuery (mergeQuery req) =
     (if Mapping.is_empty (urlValues req) then rawQuery (reqUrl req)
      else (if rawQuery (reqUrl req) \<noteq> [] then rawQuery (reqUrl req) @ ''&''
            else rawQuery (reqUrl req)) @ valuesEncode (urlValues req))"
  by (simp_all add: mergeQuery_def)

text \<open>
  Claim C5. When the URL of the request has a non-empty query string, the query string
  of the finalized request is the original one, unchanged, followed when there are
  accumulated query parameters by \<^verbatim>\<open>&\<close> and their form encoding; so the original query
  string is a prefix of the final one, and scheme, host and path are unchanged.
\<close>

theorem query_appended:
  "\<forall>l req stdin hr.
     rawQuery (reqUrl req) \<noteq> [] \<and> request_do l req stdin = Inr hr \<longrightarrow>
       rawQuery (URL hr) =
         rawQuery (reqUrl req)
           @ (if Mapping.is_empty (urlValues req) then []
              else ''&'' @ valuesEncode (urlValues req))
       \<and> prefix (rawQuery (reqUrl req)) (rawQuery (URL hr))
       \<and> scheme (URL hr) = scheme (reqUrl req) \<and> host (URL hr) = host (reqUrl req)
       \<and> path (URL hr) = path (reqUrl req)"
proof (intro allI impI)
  fix l req stdin hr
  assume a: "rawQuery (reqUrl req) \<noteq> [] \<and> request_do l req stdin = Inr hr"
  from request_do_URL[OF conjunct2[OF a]] have u: "URL hr = mergeQuery req" .
  have q: "rawQuery (URL hr) =
         rawQuery (reqUrl req)
           @ (if Mapping.is_empty (urlValues req) then []
              else ''&'' @ valuesEncode (urlValues req))"
    using conjunct1[OF a] by (simp add: u mergeQuery_fields)
  have p: "prefix (rawQuery (reqUrl req)) (rawQuery (URL hr))"
    by (subst q) simp
  show "rawQuery (URL hr) =
         rawQuery (reqUrl req)
           @ (if Mapping.is_empty (urlValues req) then []
              else ''&'' @ valuesEncode (urlValues req))
       \<and> prefix (rawQuery (reqUrl req)) (rawQuery (URL hr))
       \<and> scheme (URL hr) = scheme (reqUrl req) \<and> host (URL hr) = host (reqUrl req)
       \<and> path (URL hr) = path (reqUrl req)"
    using q p by (simp add: u mergeQuery_fields)
qed

lemma encode_examples:
  "valuesEncode (valuesAdd ''y'' ''yval'' (valuesAdd ''x'' ''xval2'' (valuesAdd ''x'' ''xval1'' Mapping.empty)))
     = ''x=xval1&x=xval2&y=yval''"
  "valuesEncode (valuesAdd ''j2'' ''another'' (valuesAdd ''j2'' [] (valuesAdd ''j1'' ''123'' Mapping.empty)))
     = ''j1=123&j2=&j2=another''"
  "valuesEncode (valuesAdd ''a'' ''2'' (valuesAdd ''b'' ''1'' Mapping.empty)) = ''a=2&b=1''"
  "valuesEncode (valuesAdd ''j1'' ''123'' Mapping.empty) = ''j1=123''"
  by code_simp+

text \<open>The statement of C5 at \<^verbatim>\<open>/foo?z=zval\<close> with \<^verbatim>\<open>x==xval1 x==xval2 y==yval\<close>.\<close>

theorem query_appended_witness:
  "rawQuery (reqUrl queryRequest) \<noteq> []
   \<and> request_do exampleLib queryRequest NoStdin
       = Inr \<lparr>URL = \<lparr>scheme = ''http'', host = ''foo.com'', path = ''/foo'',
                     rawQuery = ''z=zval&x=xval1&x=xval2&y=yval''\<rparr>,
               Method = ''GET'', Header = Mapping.empty, Body = []\<rparr>
   \<and> ''z=zval&x=xval1&x=xval2&y=yval'' = ''z=zval'' @ ''&'' @ ''x=xval1&x=xval2&y=yval''
   \<and> prefix ''z=zval'' ''z=zval&x=xval1&x=xval2&y=yval''"
proof -
  have ne: "rawQuery (reqUrl queryRequest) \<noteq> []" by (simp add: queryRequest_def)
  have d: "request_do exampleLib queryRequest NoStdin
       = Inr \<lparr>URL = \<lparr>scheme = ''http'', host = ''foo.com'', path = ''/foo'',
                     rawQuery = ''z=zval&x=xval1&x=xval2&y=yval''\<rparr>,
               Method = ''GET'', Header = Mapping.empty, Body = []\<rparr>"
    by (simp add: request_do_def mergeQuery_def queryRequest_def valuesAdd_not_empty
          encode_examples)
  from query_appended[rule_format, OF conjI[OF ne d]]
  have "prefix (rawQuery (reqUrl queryRequest))
          (rawQuery (URL \<lparr>URL = \<lparr>scheme = ''http'', host = ''foo.com'', path = ''/foo'',
                     rawQuery = ''z=zval&x=xval1&x=xval2&y=yval''\<rparr>,
               Method = ''GET'', Header = Mapping.empty, Body = []\<rparr>))"
    by (elim conjE)
  then have p: "prefix ''z=zval'' ''z=zval&x=xval1&x=xval2&y=yval''"
    by (simp add: queryRequest_def)
  have e: "''z=zval&x=xval1&x=xval2&y=yval'' = ''z=zval'' @ ''&'' @ ''x=xval1&x=xval2&y=yval''"
    by simp
  show ?thesis by (rule conjI[OF ne conjI[OF d conjI[OF e p]]])
qed

subsection \<open>Content-Type\<close>

lemma json_keeps_content_type:
  assumes "headerGet (header req) ''Content-Type'' \<noteq> []" "Mapping.is_empty (reqForm req)"
    and "request_do l (setJsonType p req) stdin = Inr hr"
  shows "Header hr = header req"
  using assms
  by (auto simp: request_do_def setJsonType_def Let_def
        split: if_splits option.splits stdinStream.splits)

lemma ex_form_type_newRequest:
  "newRequest exampleLib noFlags [''foo.com'', ''Content-Type:text/plain'', ''j1=123''] exampleWorld
     = (Inr (\<lparr>reqUrl = fooURL, reqMethod = ''POST'',
               header = valuesAdd ''Content-Type'' ''text/plain'' Mapping.empty,
               urlValues = Mapping.empty,
               reqForm = valuesAdd ''j1'' ''123'' Mapping.empty,
               jsonObj = Mapping.empty\<rparr>,
             formParams\<lparr>keyVals := [\<lparr>key = ''Content-Type'', sep = '':'', val = ''text/plain''\<rparr>,
                                     \<lparr>key = ''j1'', sep = ''='', val = ''123''\<rparr>]\<rparr>), exampleWorld)"
  by (simp add: newRequest_def addKeyVal_def sepFuncs_simps httpHeader_def dataString_def
        emptyRequest_def headerAdd_def setAuth_def setJsonType_def canon_examples
        parseArgs_def isMethod_def localhostURL_def inRange_def parse_evals
        isDataSendingSep_examples exampleLib_def noFlags_def formParams_def fooURL_def)

text \<open>
  Claim C1 at the command line \<^verbatim>\<open>foo.com Content-Type:text/plain j1=123\<close>: the request
  that \<^verbatim>\<open>newRequest\<close> returns carries the header \<^verbatim>\<open>Content-Type: text/plain\<close>, and the
  request that \<^verbatim>\<open>request.do\<close> hands to the client carries
  \<^verbatim>\<open>Content-Type: application/x-www-form-urlencoded\<close> instead.
\<close>

theorem form_overwrites_content_type:
  "newRequest exampleLib noFlags [''foo.com'', ''Content-Type:text/plain'', ''j1=123''] exampleWorld
     = (Inr (\<lparr>reqUrl = fooURL, reqMethod = ''POST'',
               header = valuesAdd ''Content-Type'' ''text/plain'' Mapping.empty,
               urlValues = Mapping.empty,
               reqForm = valuesAdd ''j1'' ''123'' Mapping.empty,
               jsonObj = Mapping.empty\<rparr>,
             formParams\<lparr>keyVals := [\<lparr>key = ''Content-Type'', sep = '':'', val = ''text/plain''\<rparr>,
                                     \<lparr>key = ''j1'', sep = ''='', val = ''123''\<rparr>]\<rparr>), exampleWorld)
   \<and> getAll (valuesAdd ''Content-Type'' ''text/plain'' Mapping.empty) ''Content-Type'' = [''text/plain'']
   \<and> \<not> isl (fst (buildRequest exampleLib noFlags
                    [''foo.com'', ''Content-Type:text/plain'', ''j1=123''] None exampleWorld))
   \<and> getAll (Header (projr (fst (buildRequest exampleLib noFlags
                    [''foo.com'', ''Content-Type:text/plain'', ''j1=123''] None exampleWorld))))
        ''Content-Type'' = [''application/x-www-form-urlencoded'']
   \<and> Body (projr (fst (buildRequest exampleLib noFlags
                    [''foo.com'', ''Content-Type:text/plain'', ''j1=123''] None exampleWorld)))
        = ''j1=123''"
  using ex_form_type_newRequest
  by (simp add: buildRequest_def request_do_form valuesAdd_not_empty formParams_def
        headerSet_def canon_examples getAll_update getAll_empty getAll_valuesAdd encode_examples)

text \<open>
  At that command line the Content-Type handed to the client differs from the explicit
  one.
\<close>

theorem form_overwrites_content_type_witness:
  "getAll (Header (projr (fst (buildRequest exampleLib noFlags
                    [''foo.com'', ''Content-Type:text/plain'', ''j1=123''] None exampleWorld))))
        ''Content-Type''
     \<noteq> getAll (valuesAdd ''Content-Type'' ''text/plain'' Mapping.empty) ''Content-Type''"
proof -
  note t = form_overwrites_content_type
  note a = conjunct1[OF conjunct2[OF t]]
  note b = conjunct1[OF conjunct2[OF conjunct2[OF conjunct2[OF t]]]]
  show ?thesis unfolding a b by simp
qed

subsection \<open>Repeated keys\<close>













subsection \<open>Rendering\<close>






subsection \<open>The form body\<close>

lemma addAll_simps:
  "addAll m [] = m"
  "addAll m (kv # kvs) = addAll (valuesAdd (key kv) (val kv) m) kvs"
  by (simp_all add: addAll_def)

lemma form_tokens_apply:
  assumes "\<not> json p" "\<forall>kv\<in>set kvs. sep kv = ''=''"
  shows "addKeyVals l p kvs req w = (Inr (req\<lparr>reqForm := addAll (reqForm req) kvs\<rparr>), w)"
  using assms(2)
proof (induction kvs arbitrary: req)
  case Nil
  then show ?case by (simp add: addAll_simps)
next
  case (Cons kv kvs)
  from Cons.prems have s: "sep kv = ''=''" and r: "\<forall>kv\<in>set kvs. sep kv = ''=''" by simp_all
  have "addKeyVal l p kv req w = (Inr (req\<lparr>reqForm := valuesAdd (key kv) (val kv) (reqForm req)\<rparr>), w)"
    using assms(1) s by (simp add: addKeyVal_def sepFuncs_simps dataString_def)
  with Cons.IH[OF r, of "req\<lparr>reqForm := valuesAdd (key kv) (val kv) (reqForm req)\<rparr>"]
  show ?case by (simp add: addAll_simps)
qed

lemma getAll_addAll:
  "getAll (addAll m kvs) k = getAll m k @ map val (filter (\<lambda>kv. key kv = k) kvs)"
  by (induction kvs arbitrary: m) (simp_all add: addAll_simps getAll_valuesAdd)

lemma keys_valuesAdd: "Mapping.keys (valuesAdd k v m) = insert k (Mapping.keys m)"
  by (simp add: valuesAdd_def)

lemma keys_addAll: "Mapping.keys (addAll m kvs) = Mapping.keys m \<union> set (map key kvs)"
  by (induction kvs arbitrary: m) (auto simp: addAll_simps keys_valuesAdd)

lemma addAll_not_empty: "kvs \<noteq> [] \<Longrightarrow> \<not> Mapping.is_empty (addAll m kvs)"
proof -
  assume "kvs \<noteq> []"
  then have "Mapping.keys (addAll m kvs) \<noteq> {}" by (cases kvs) (simp_all add: keys_addAll)
  then show ?thesis by (simp add: Mapping.is_empty_def)
qed

lemma ordered_keys_addAll:
  "Mapping.ordered_keys (addAll Mapping.empty kvs) = sort (remdups (map key kvs))"
proof -
  have k: "Mapping.keys (addAll Mapping.empty kvs) = set (map key kvs)"
    by (simp add: keys_addAll)
  show ?thesis
    unfolding Mapping.ordered_keys_def k
    using sorted_list_of_set_sort_remdups[of "map key kvs"] by simp
qed

lemma encodePair_appendField:
  "encodePair ke buf v = appendField buf (ke @ ''='' @ queryEscape v)"
  by (simp add: encodePair_def appendField_def)

lemma foldl_encodePair:
  "foldl (encodePair ke) buf vs = foldl appendField buf (map (\<lambda>v. ke @ ''='' @ queryEscape v) vs)"
  by (induction vs arbitrary: buf) (simp_all add: encodePair_appendField)

lemma foldl_keys:
  "foldl (\<lambda>buf k. foldl (encodePair (queryEscape k)) buf (g k)) buf ks
     = foldl appendField buf
         (concat (map (\<lambda>k. map (\<lambda>v. queryEscape k @ ''='' @ queryEscape v) (g k)) ks))"
  by (induction ks arbitrary: buf) (simp_all add: foldl_encodePair)

lemma joinWith_Cons: "joinWith s (x # xs) = (if xs = [] then x else x @ s @ joinWith s xs)"
  by (cases xs) simp_all

lemma foldl_appendField:
  assumes "\<forall>s\<in>set ps. s \<noteq> []"
  shows "foldl appendField buf ps
           = (if ps = [] then buf else (if buf = [] then [] else buf @ ''&'') @ joinWith ''&'' ps)"
  using assms
proof (induction ps arbitrary: buf)
  case Nil
  then show ?case by simp
next
  case (Cons x xs)
  from Cons.prems have x: "x \<noteq> []" and r: "\<forall>s\<in>set xs. s \<noteq> []" by simp_all
  define a where "a = appendField buf x"
  have ne: "a \<noteq> []" using x by (simp add: a_def appendField_def)
  have a: "a = (if buf = [] then [] else buf @ ''&'') @ x" by (simp add: a_def appendField_def)
  have "foldl appendField buf (x # xs) = foldl appendField a xs" by (simp add: a_def)
  also have "\<dots> = (if xs = [] then a else a @ ''&'' @ joinWith ''&'' xs)"
    using Cons.IH[OF r, of a] ne by simp
  also have "\<dots> = (if buf = [] then [] else buf @ ''&'') @ joinWith ''&'' (x # xs)"
    by (simp add: joinWith_Cons a)
  finally show ?case by simp
qed

lemma valuesEncode_join:
  "valuesEncode m
     = joinWith ''&'' (concat (map (\<lambda>k. map (\<lambda>v. queryEscape k @ ''='' @ queryEscape v) (getAll m k))
                           (Mapping.ordered_keys m)))"
proof -
  define ps where "ps = concat (map (\<lambda>k. map (\<lambda>v. queryEscape k @ ''='' @ queryEscape v) (getAll m k))
                           (Mapping.ordered_keys m))"
  have ne: "\<forall>s\<in>set ps. s \<noteq> []" by (auto simp: ps_def)
  have "valuesEncode m = foldl appendField [] ps"
    unfolding valuesEncode_def ps_def by (rule foldl_keys)
  also have "\<dots> = joinWith ''&'' ps"
    using foldl_appendField[OF ne, of "[]"] by (cases "ps = []") simp_all
  finally show ?thesis by (simp add: ps_def)
qed

lemma encode_addAll:
  "valuesEncode (addAll Mapping.empty kvs) = joinFields (sortedFields kvs)"
proof -
  have g: "getAll (addAll Mapping.empty kvs) k = map val (filter (\<lambda>kv. key kv = k) kvs)" for k
    by (simp add: getAll_addAll getAll_empty)
  show ?thesis
    unfolding valuesEncode_join ordered_keys_addAll joinFields_def sortedFields_def
    by (simp add: g map_concat comp_def)
qed

lemma form_body_general:
  assumes "\<not> json p" "kvs \<noteq> []" "\<forall>kv\<in>set kvs. sep kv = ''=''"
  shows "\<exists>req hr. addKeyVals l p kvs (emptyRequest p) w = (Inr req, w)
           \<and> request_do l req stdin = Inr hr
           \<and> Body hr = joinFields (sortedFields kvs)
           \<and> Method hr = methodName p
           \<and> getAll (Header hr) ''Content-Type'' = [''application/x-www-form-urlencoded'']"
proof -
  let ?req = "(emptyRequest p)\<lparr>reqForm := addAll (reqForm (emptyRequest p)) kvs\<rparr>"
  have f: "reqForm ?req = addAll Mapping.empty kvs" by (simp add: emptyRequest_def)
  have a: "addKeyVals l p kvs (emptyRequest p) w = (Inr ?req, w)"
    by (rule form_tokens_apply[OF assms(1,3)])
  have ne: "\<not> Mapping.is_empty (reqForm ?req)"
    unfolding f by (rule addAll_not_empty[OF assms(2)])
  note d = request_do_form[OF ne, of l stdin]
  let ?hr = "\<lparr>URL = mergeQuery ?req, Method = reqMethod ?req,
            Header = headerSet ''Content-Type'' ''application/x-www-form-urlencoded'' (header ?req),
            Body = valuesEncode (reqForm ?req)\<rparr>"
  have b: "Body ?hr = joinFields (sortedFields kvs)"
    by (simp add: emptyRequest_def encode_addAll)
  have m: "Method ?hr = methodName p" by (simp add: emptyRequest_def)
  have h: "getAll (Header ?hr) ''Content-Type'' = [''application/x-www-form-urlencoded'']"
    by (simp add: headerSet_def canon_examples getAll_update)
  show ?thesis
    by (rule exI[of _ ?req], rule exI[of _ ?hr]) (rule conjI[OF a conjI[OF d conjI[OF b conjI[OF m h]]]])
qed

lemma ex_form_newRequest:
  "newRequest exampleLib noFlags [''foo.com'', ''j1=123'', ''j2='', ''j2=another''] exampleWorld
     = (Inr ((emptyRequest formParams)\<lparr>reqForm :=
               valuesAdd ''j2'' ''another'' (valuesAdd ''j2'' [] (valuesAdd ''j1'' ''123'' Mapping.empty))\<rparr>,
             formParams\<lparr>keyVals := [\<lparr>key = ''j1'', sep = ''='', val = ''123''\<rparr>,
                                     \<lparr>key = ''j2'', sep = ''='', val = []\<rparr>,
                                     \<lparr>key = ''j2'', sep = ''='', val = ''another''\<rparr>]\<rparr>), exampleWorld)"
  "newRequest exampleLib noFlags [''foo.com'', ''b=1'', ''a=2''] exampleWorld
     = (Inr ((emptyRequest formParams)\<lparr>reqForm :=
               valuesAdd ''a'' ''2'' (valuesAdd ''b'' ''1'' Mapping.empty)\<rparr>,
             formParams\<lparr>keyVals := [\<lparr>key = ''b'', sep = ''='', val = ''1''\<rparr>,
                                     \<lparr>key = ''a'', sep = ''='', val = ''2''\<rparr>]\<rparr>), exampleWorld)"
  by (simp_all add: newRequest_def addKeyVal_def sepFuncs_simps dataString_def
        emptyRequest_def setAuth_def setJsonType_def
        parseArgs_def isMethod_def localhostURL_def inRange_def parse_evals
        isDataSendingSep_examples exampleLib_def noFlags_def formParams_def fooURL_def)

lemma ex_form_build:
  "buildRequest exampleLib noFlags [''foo.com'', ''j1=123'', ''j2='', ''j2=another''] None exampleWorld
     = (Inr \<lparr>URL = fooURL, Method = ''POST'',
             Header = headerSet ''Content-Type'' ''application/x-www-form-urlencoded'' Mapping.empty,
             Body = ''j1=123&j2=&j2=another''\<rparr>, exampleWorld)"
  "buildRequest exampleLib noFlags [''foo.com'', ''b=1'', ''a=2''] None exampleWorld
     = (Inr \<lparr>URL = fooURL, Method = ''POST'',
             Header = headerSet ''Content-Type'' ''application/x-www-form-urlencoded'' Mapping.empty,
             Body = ''a=2&b=1''\<rparr>, exampleWorld)"
  by (simp_all add: buildRequest_def ex_form_newRequest request_do_form valuesAdd_not_empty
        encode_examples emptyRequest_def mergeQuery_def formParams_def)

text \<open>
  Claim C4, amended. Outside JSON mode, a non-empty list of \<^verbatim>\<open>=\<close> tokens always applies,
  and the finalized request has the method of the parameters, the Content-Type
  \<^verbatim>\<open>application/x-www-form-urlencoded\<close> and as body the fields sorted by key, the values
  of one key in the order of their tokens. For \<^verbatim>\<open>foo.com j1=123 j2= j2=another\<close> the
  method is POST and the body is \<^verbatim>\<open>j1=123&j2=&j2=another\<close>.
\<close>

theorem form_body_sorted:
  "(\<forall>l p kvs w stdin.
      \<not> json p \<and> kvs \<noteq> [] \<and> (\<forall>kv\<in>set kvs. sep kv = ''='') \<longrightarrow>
        (\<exists>req hr. addKeyVals l p kvs (emptyRequest p) w = (Inr req, w)
           \<and> request_do l req stdin = Inr hr
           \<and> Body hr = joinFields (sortedFields kvs)
           \<and> Method hr = methodName p
           \<and> getAll (Header hr) ''Content-Type'' = [''application/x-www-form-urlencoded'']))
   \<and> buildRequest exampleLib noFlags [''foo.com'', ''j1=123'', ''j2='', ''j2=another''] None exampleWorld
       = (Inr \<lparr>URL = fooURL, Method = ''POST'',
               Header = headerSet ''Content-Type'' ''application/x-www-form-urlencoded'' Mapping.empty,
               Body = ''j1=123&j2=&j2=another''\<rparr>, exampleWorld)
   \<and> getAll (headerSet ''Content-Type'' ''application/x-www-form-urlencoded'' Mapping.empty)
        ''Content-Type'' = [''application/x-www-form-urlencoded'']"
proof (intro conjI allI impI)
  fix l :: lib and p :: params and kvs :: "keyVal list" and w :: world and stdin :: stdinStream
  assume a: "\<not> json p \<and> kvs \<noteq> [] \<and> (\<forall>kv\<in>set kvs. sep kv = ''='')"
  show "\<exists>req hr. addKeyVals l p kvs (emptyRequest p) w = (Inr req, w)
           \<and> request_do l req stdin = Inr hr
           \<and> Body hr = joinFields (sortedFields kvs)
           \<and> Method hr = methodName p
           \<and> getAll (Header hr) ''Content-Type'' = [''application/x-www-form-urlencoded'']"
    by (rule form_body_general[OF conjunct1[OF a] conjunct1[OF conjunct2[OF a]]
          conjunct2[OF conjunct2[OF a]]])
next
  show "buildRequest exampleLib noFlags [''foo.com'', ''j1=123'', ''j2='', ''j2=another''] None exampleWorld
       = (Inr \<lparr>URL = fooURL, Method = ''POST'',
               Header = headerSet ''Content-Type'' ''application/x-www-form-urlencoded'' Mapping.empty,
               Body = ''j1=123&j2=&j2=another''\<rparr>, exampleWorld)"
    by (rule ex_form_build(1))
next
  show "getAll (headerSet ''Content-Type'' ''application/x-www-form-urlencoded'' Mapping.empty)
        ''Content-Type'' = [''application/x-www-form-urlencoded'']"
    by (simp add: headerSet_def canon_examples getAll_update)
qed

text \<open>
  Claim C4 as stated fails: for \<^verbatim>\<open>foo.com b=1 a=2\<close> the body is \<^verbatim>\<open>a=2&b=1\<close>, not the fields
  in the order of the tokens.
\<close>

theorem form_body_sorted_counterexample:
  "buildRequest exampleLib noFlags [''foo.com'', ''b=1'', ''a=2''] None exampleWorld
     = (Inr \<lparr>URL = fooURL, Method = ''POST'',
             Header = headerSet ''Content-Type'' ''application/x-www-form-urlencoded'' Mapping.empty,
             Body = ''a=2&b=1''\<rparr>, exampleWorld)
   \<and> ''a=2&b=1'' \<noteq> ''b=1&a=2''"
  using ex_form_build(2) by simp

lemma ex_sortedFields:
  "joinFields (sortedFields [\<lparr>key = ''b'', sep = ''='', val = ''1''\<rparr>, \<lparr>key = ''a'', sep = ''='', val = ''2''\<rparr>])
     = ''a=2&b=1''"
  by code_simp

text \<open>The amended statement of C4 at the tokens \<^verbatim>\<open>b=1 a=2\<close>.\<close>

theorem form_body_sorted_witness:
  "\<not> json formParams
   \<and> [\<lparr>key = ''b'', sep = ''='', val = ''1''\<rparr>, \<lparr>key = ''a'', sep = ''='', val = ''2''\<rparr>] \<noteq> []
   \<and> map sep [\<lparr>key = ''b'', sep = ''='', val = ''1''\<rparr>, \<lparr>key = ''a'', sep = ''='', val = ''2''\<rparr>]
        = [''='', ''='']
   \<and> (\<exists>req hr. addKeyVals exampleLib formParams
                   [\<lparr>key = ''b'', sep = ''='', val = ''1''\<rparr>, \<lparr>key = ''a'', sep = ''='', val = ''2''\<rparr>]
                   (emptyRequest formParams) exampleWorld = (Inr req, exampleWorld)
           \<and> request_do exampleLib req NoStdin = Inr hr
           \<and> Body hr = ''a=2&b=1''
           \<and> Method hr = ''POST''
           \<and> getAll (Header hr) ''Content-Type'' = [''application/x-www-form-urlencoded''])"
proof -
  let ?kvs = "[\<lparr>key = ''b'', sep = ''='', val = ''1''\<rparr>, \<lparr>key = ''a'', sep = ''='', val = ''2''\<rparr>]"
  have j: "\<not> json formParams" by (simp add: formParams_def)
  have ne: "?kvs \<noteq> []" by simp
  have s: "\<forall>kv\<in>set ?kvs. sep kv = ''=''" by simp
  have m: "methodName formParams = ''POST''" by (simp add: formParams_def)
  note t = conjunct1[OF form_body_sorted, rule_format, OF conjI[OF j conjI[OF ne s]],
      of exampleLib exampleWorld NoStdin]
  have e: "\<exists>req hr. addKeyVals exampleLib formParams ?kvs
                   (emptyRequest formParams) exampleWorld = (Inr req, exampleWorld)
           \<and> request_do exampleLib req NoStdin = Inr hr
           \<and> Body hr = ''a=2&b=1''
           \<and> Method hr = ''POST''
           \<and> getAll (Header hr) ''Content-Type'' = [''application/x-www-form-urlencoded'']"
    using t unfolding ex_sortedFields m .
  have s': "map sep ?kvs = [''='', ''='']" by simp
  show ?thesis by (rule conjI[OF j conjI[OF ne conjI[OF s' e]]])
qed

subsection \<open>Method inference\<close>

lemma parseKeyVal_sep: "parseKeyVal s = Inr kv \<Longrightarrow> sep kv \<in> set separators"
proof -
  assume "parseKeyVal s = Inr kv"
  then have "matchesFirst (ctxOf False) s (sep kv) (val kv)"
    unfolding parseKeyVal_def by (rule parseLoop_match)
  then obtain pre where
    "s = pre @ sep kv @ val kv \<and> \<not> escapedAfter (ctxOf False @ pre)
        \<and> firstSep (sep kv @ val kv) = Some (sep kv)
        \<and> (\<forall>p q. s = p @ q \<and> length p < length pre \<longrightarrow>
              escapedAfter (ctxOf False @ p) \<or> firstSep q = None)"
    unfolding matchesFirst_def ..
  then have "firstSep (sep kv @ val kv) = Some (sep kv)" by simp
  from firstSep_Some[OF this] show ?thesis by simp
qed

lemma isDataSendingSep_iff:
  assumes "sp \<in> set separators"
  shows "isDataSendingSep sp = (sp \<in> {''='', '':='', ''=@'', '':=@'', ''@''})"
proof -
  from assms have "sp = '':=@'' \<or> sp = '':='' \<or> sp = '':'' \<or> sp = ''=='' \<or> sp = ''=@''
      \<or> sp = ''='' \<or> sp = ''@''" by (simp add: separators_def)
  then show ?thesis
    by (elim disjE) (simp_all add: isDataSendingSep_examples)
qed

lemma parseItems_result:
  "parseItems m items = Inr (m', kvs) \<Longrightarrow>
     map parseKeyVal items = map Inr kvs
     \<and> m' = (if m \<noteq> [] then m
             else if \<exists>kv\<in>set kvs. isDataSendingSep (sep kv) then ''POST'' else [])"
proof (induction items arbitrary: m m' kvs)
  case Nil
  then show ?case by simp
next
  case (Cons a items)
  from Cons.prems obtain kv kvs' where
    kv: "parseKeyVal a = Inr kv" and
    rest: "parseItems (if isDataSendingSep (sep kv) \<and> m = [] then ''POST'' else m) items = Inr (m', kvs')"
    and kvs: "kvs = kv # kvs'"
    by (auto split: sum.splits prod.splits)
  from Cons.IH[OF rest] kv kvs show ?case by (auto split: if_splits)
qed

lemma parseArgs_nomethod:
  assumes "\<not> isMethod a0" "parseArgs l f (a0 # rest) = Inr p"
  shows "\<exists>m'. parseItems [] rest = Inr (m', keyVals p) \<and> methodName p = (if m' = [] then ''GET'' else m')"
proof (cases "urlParse l (localhostURL a0)")
  case None
  with assms show ?thesis by (simp add: parseArgs_def)
next
  case (Some u)
  show ?thesis
  proof (cases "parseItems [] rest")
    case (Inl e)
    with assms Some show ?thesis by (simp add: parseArgs_def)
  next
    case (Inr r)
    obtain m' kvs where r: "r = (m', kvs)" by (cases r)
    with assms Some Inr have "keyVals p = kvs" "methodName p = (if m' = [] then ''GET'' else m')"
      by (auto simp: parseArgs_def)
    with Inr r show ?thesis by simp
  qed
qed

lemma parseArgs_infers_all:
  "\<forall>l f a0 rest p.
     \<not> isMethod a0 \<and> parseArgs l f (a0 # rest) = Inr p \<longrightarrow>
       map parseKeyVal rest = map Inr (keyVals p)
       \<and> methodName p =
           (if \<exists>kv\<in>set (keyVals p). sep kv \<in> {''='', '':='', ''=@'', '':=@'', ''@''}
            then ''POST'' else ''GET'')"
proof (intro allI impI)
  fix l f a0 rest p
  assume a: "\<not> isMethod a0 \<and> parseArgs l f (a0 # rest) = Inr p"
  then obtain m' where pi: "parseItems [] rest = Inr (m', keyVals p)"
    and m: "methodName p = (if m' = [] then ''GET'' else m')"
    using parseArgs_nomethod[of a0 l f rest p] by auto
  from parseItems_result[OF pi] have
    tok: "map parseKeyVal rest = map Inr (keyVals p)"
    and m': "m' = (if \<exists>kv\<in>set (keyVals p). isDataSendingSep (sep kv) then ''POST'' else [])"
    by simp_all
  have seps: "sep kv \<in> set separators" if "kv \<in> set (keyVals p)" for kv
  proof -
    from that have "Inr kv \<in> set (map Inr (keyVals p))" by simp
    with tok have "Inr kv \<in> set (map parseKeyVal rest)" by simp
    then obtain s where "parseKeyVal s = Inr kv" by auto
    then show ?thesis by (rule parseKeyVal_sep)
  qed
  have "(\<exists>kv\<in>set (keyVals p). isDataSendingSep (sep kv))
          = (\<exists>kv\<in>set (keyVals p). sep kv \<in> {''='', '':='', ''=@'', '':=@'', ''@''})"
    by (rule bex_cong[OF refl]) (rule isDataSendingSep_iff[OF seps])
  with m m' tok show "map parseKeyVal rest = map Inr (keyVals p)
       \<and> methodName p =
           (if \<exists>kv\<in>set (keyVals p). sep kv \<in> {''='', '':='', ''=@'', '':=@'', ''@''}
            then ''POST'' else ''GET'')" by simp
qed


lemma parseArgs_infers:
  assumes "\<not> isMethod a0" "parseArgs l f (a0 # rest) = Inr p"
  shows "map parseKeyVal rest = map Inr (keyVals p)
       \<and> methodName p =
           (if \<exists>kv\<in>set (keyVals p). sep kv \<in> {''='', '':='', ''=@'', '':=@'', ''@''}
            then ''POST'' else ''GET'')"
  using parseArgs_infers_all[rule_format, OF conjI[OF assms]] .

lemma addKeyVals_recognized:
  "addKeyVals l p kvs req w = (Inr req', w') \<Longrightarrow> \<forall>kv\<in>set kvs. sepFuncs (sep kv) \<noteq> None"
proof (induction kvs arbitrary: req w)
  case Nil
  then show ?case by simp
next
  case (Cons kv kvs)
  from Cons.prems obtain req1 w1 where
    s1: "addKeyVal l p kv req w = (Inr req1, w1)" and s2: "addKeyVals l p kvs req1 w1 = (Inr req', w')"
    by (auto split: prod.splits sum.splits)
  from s1 have "sepFuncs (sep kv) \<noteq> None"
    by (cases "sepFuncs (sep kv)") (simp_all add: addKeyVal_def)
  with Cons.IH[OF s2] show ?case by simp
qed

lemma recognized_data:
  assumes "sepFuncs sp \<noteq> None"
  shows "(sp \<in> {''='', '':='', ''=@'', '':=@'', ''@''}) = isBodySep sp"
  using sepFuncs_cases[of sp] assms
  by (elim disjE conjE) (simp_all add: isBodySep_def)

lemma sepFunc_method:
  "httpHeader l p k v req w = (Inr req', w') \<Longrightarrow> reqMethod req' = reqMethod req"
  "urlParam l p k v req w = (Inr req', w') \<Longrightarrow> reqMethod req' = reqMethod req"
  "dataString l p k v req w = (Inr req', w') \<Longrightarrow> reqMethod req' = reqMethod req"
  "dataStringFile l p k v req w = (Inr req', w') \<Longrightarrow> reqMethod req' = reqMethod req"
  "jsonOther l p k v req w = (Inr req', w') \<Longrightarrow> reqMethod req' = reqMethod req"
  "jsonOtherFile l p k v req w = (Inr req', w') \<Longrightarrow> reqMethod req' = reqMethod req"
  by (auto simp: httpHeader_def urlParam_def dataString_def dataStringFile_def jsonOther_def
        jsonOtherFile_def readFile_def split: if_splits option.splits)

lemma addKeyVal_method:
  assumes "addKeyVal l p kv req w = (Inr req', w')"
  shows "reqMethod req' = reqMethod req"
  using sepFuncs_cases[of "sep kv"] assms
  by (elim disjE conjE) (auto simp: addKeyVal_def dest: sepFunc_method)

lemma addKeyVals_method:
  "addKeyVals l p kvs req w = (Inr req', w') \<Longrightarrow> reqMethod req' = reqMethod req"
proof (induction kvs arbitrary: req w)
  case Nil
  then show ?case by simp
next
  case (Cons kv kvs)
  from Cons.prems obtain req1 w1 where
    s1: "addKeyVal l p kv req w = (Inr req1, w1)" and s2: "addKeyVals l p kvs req1 w1 = (Inr req', w')"
    by (auto split: prod.splits sum.splits)
  from addKeyVal_method[OF s1] Cons.IH[OF s2] show ?case by simp
qed

lemma newRequest_method:
  assumes "\<not> isMethod a0" "newRequest l f (a0 # rest) w = (Inr (req, p), w')"
  shows "reqMethod req = (if \<exists>kv\<in>set (keyVals p). isBodySep (sep kv) then ''POST'' else ''GET'')"
proof -
  from newRequest_Inr[OF assms(2)] obtain req0 where
    pa: "parseArgs l f (a0 # rest) = Inr p" and
    ak: "addKeyVals l p (keyVals p) (emptyRequest p) w = (Inr req0, w')" and
    r: "req = setJsonType p (setAuth l p req0)" by (elim exE conjE)
  have m: "reqMethod req = methodName p"
    using addKeyVals_method[OF ak] by (simp add: r setJsonType_def setAuth_def emptyRequest_def)
  note mi = parseArgs_infers[OF assms(1) pa]
  have "(\<exists>kv\<in>set (keyVals p). sep kv \<in> {''='', '':='', ''=@'', '':=@'', ''@''})
          = (\<exists>kv\<in>set (keyVals p). isBodySep (sep kv))"
  proof (rule bex_cong[OF refl])
    fix kv assume "kv \<in> set (keyVals p)"
    with addKeyVals_recognized[OF ak] have "sepFuncs (sep kv) \<noteq> None" by simp
    then show "(sep kv \<in> {''='', '':='', ''=@'', '':=@'', ''@''}) = isBodySep (sep kv)"
      by (rule recognized_data)
  qed
  with conjunct2[OF mi] m show ?thesis by simp
qed

text \<open>
  Claim C2, amended. When the first argument is not a method, the key-value pairs of
  the parameters are the parsed request items, and the method that \<^verbatim>\<open>parseArgs\<close> infers
  is POST exactly when some item has one of the separators \<^verbatim>\<open>=\<close>, \<^verbatim>\<open>:=\<close>, \<^verbatim>\<open>=@\<close>, \<^verbatim>\<open>:=@\<close>
  or \<^verbatim>\<open>@\<close>, and GET otherwise; an item with the separator \<^verbatim>\<open>:\<close> or \<^verbatim>\<open>==\<close> does not change
  it. An item with the separator \<^verbatim>\<open>@\<close> makes \<^verbatim>\<open>newRequest\<close> fail, so the method of a
  request that \<^verbatim>\<open>newRequest\<close> returns is POST exactly when some item has one of \<^verbatim>\<open>=\<close>,
  \<^verbatim>\<open>:=\<close>, \<^verbatim>\<open>=@\<close>, \<^verbatim>\<open>:=@\<close>.
\<close>

theorem method_inference:
  "(\<forall>l f a0 rest p.
      \<not> isMethod a0 \<and> parseArgs l f (a0 # rest) = Inr p \<longrightarrow>
        map parseKeyVal rest = map Inr (keyVals p)
        \<and> methodName p =
            (if \<exists>kv\<in>set (keyVals p). sep kv \<in> {''='', '':='', ''=@'', '':=@'', ''@''}
             then ''POST'' else ''GET''))
   \<and> (\<forall>l f a0 rest w req p w'.
      \<not> isMethod a0 \<and> newRequest l f (a0 # rest) w = (Inr (req, p), w') \<longrightarrow>
        reqMethod req
          = (if \<exists>kv\<in>set (keyVals p). isBodySep (sep kv) then ''POST'' else ''GET''))"
proof (intro conjI allI impI)
  fix l f a0 rest p
  assume a: "\<not> isMethod a0 \<and> parseArgs l f (a0 # rest) = Inr p"
  note r = parseArgs_infers[OF conjunct1[OF a] conjunct2[OF a]]
  show "map parseKeyVal rest = map Inr (keyVals p)" by (rule conjunct1[OF r])
  show "methodName p =
            (if \<exists>kv\<in>set (keyVals p). sep kv \<in> {''='', '':='', ''=@'', '':=@'', ''@''}
             then ''POST'' else ''GET'')" by (rule conjunct2[OF r])
next
  fix l f a0 rest w req p w'
  assume a: "\<not> isMethod a0 \<and> newRequest l f (a0 # rest) w = (Inr (req, p), w')"
  show "reqMethod req
          = (if \<exists>kv\<in>set (keyVals p). isBodySep (sep kv) then ''POST'' else ''GET'')"
    by (rule newRequest_method[OF conjunct1[OF a] conjunct2[OF a]])
qed

text \<open>
  Claim C2 as stated fails: \<^verbatim>\<open>foo.com k@v\<close> has no method argument and its only item
  has the separator \<^verbatim>\<open>@\<close>, which is none of \<^verbatim>\<open>=\<close>, \<^verbatim>\<open>:=\<close>, \<^verbatim>\<open>=@\<close>, \<^verbatim>\<open>:=@\<close>, yet the inferred
  method is POST.
\<close>

theorem method_inference_counterexample:
  "\<not> isMethod ''foo.com''
   \<and> parseArgs exampleLib noFlags [''foo.com'', ''k@v'']
       = Inr (formParams\<lparr>keyVals := [\<lparr>key = ''k'', sep = ''@'', val = ''v''\<rparr>]\<rparr>)
   \<and> methodName (formParams\<lparr>keyVals := [\<lparr>key = ''k'', sep = ''@'', val = ''v''\<rparr>]\<rparr>) = ''POST''
   \<and> \<not> isBodySep ''@''"
  using ex_parseArgs
  by (simp add: isMethod_def inRange_def formParams_def isBodySep_def)

text \<open>
  The amended statement of C2 at the command lines \<^verbatim>\<open>foo.com k@v\<close> and
  \<^verbatim>\<open>foo.com b=1 a=2\<close>.
\<close>

theorem method_inference_witness:
  "\<not> isMethod ''foo.com''
   \<and> parseArgs exampleLib noFlags [''foo.com'', ''k@v'']
       = Inr (formParams\<lparr>keyVals := [\<lparr>key = ''k'', sep = ''@'', val = ''v''\<rparr>]\<rparr>)
   \<and> map parseKeyVal [''k@v''] = map Inr [\<lparr>key = ''k'', sep = ''@'', val = ''v''\<rparr>]
   \<and> methodName (formParams\<lparr>keyVals := [\<lparr>key = ''k'', sep = ''@'', val = ''v''\<rparr>]\<rparr>) = ''POST''
   \<and> newRequest exampleLib noFlags [''foo.com'', ''b=1'', ''a=2''] exampleWorld
       = (Inr ((emptyRequest formParams)\<lparr>reqForm :=
                 valuesAdd ''a'' ''2'' (valuesAdd ''b'' ''1'' Mapping.empty)\<rparr>,
               formParams\<lparr>keyVals := [\<lparr>key = ''b'', sep = ''='', val = ''1''\<rparr>,
                                       \<lparr>key = ''a'', sep = ''='', val = ''2''\<rparr>]\<rparr>), exampleWorld)
   \<and> reqMethod ((emptyRequest formParams)\<lparr>reqForm :=
                 valuesAdd ''a'' ''2'' (valuesAdd ''b'' ''1'' Mapping.empty)\<rparr>) = ''POST''"
proof -
  have n: "\<not> isMethod ''foo.com''" by (simp add: isMethod_def inRange_def)
  note T = method_inference
  note t1 = conjunct1[OF T, rule_format, OF conjI[OF n ex_parseArgs]]
  note t2 = conjunct2[OF T, rule_format, OF conjI[OF n ex_form_newRequest(2)]]
  have a: "map parseKeyVal [''k@v''] = map Inr [\<lparr>key = ''k'', sep = ''@'', val = ''v''\<rparr>]"
    using conjunct1[OF t1] by simp
  have b: "methodName (formParams\<lparr>keyVals := [\<lparr>key = ''k'', sep = ''@'', val = ''v''\<rparr>]\<rparr>) = ''POST''"
    using conjunct2[OF t1] by simp
  have c: "reqMethod ((emptyRequest formParams)\<lparr>reqForm :=
                 valuesAdd ''a'' ''2'' (valuesAdd ''b'' ''1'' Mapping.empty)\<rparr>) = ''POST''"
    using t2 by (simp add: isBodySep_def)
  show ?thesis
    by (rule conjI[OF n conjI[OF ex_parseArgs conjI[OF a conjI[OF b conjI[OF ex_form_newRequest(2) c]]]]])
qed

end
